theory Spec2Isabelle
  imports Main "HOL-Library.Sublist" "HOL-Library.Char_ord" "HOL-Library.List_Lexorder"
begin

section \<open>ExtensionLens: the conflict detector and the log monitor\<close>

text \<open>
  A shallow embedding of \<^verbatim>\<open>src/ConflictDetector.ts\<close> and \<^verbatim>\<open>src/LogMonitor.ts\<close>.
  A JavaScript string is modelled as a list of 8-bit characters, read as the code units
  U+0000 to U+00FF; code units beyond that range are outside the model, except in the
  text that \<open>readFile\<close> returns, which is a list of UTF-16 code units. The host
  (extension registry, runtime command table, documents, clipboard, log files) is passed
  to each function as an explicit argument.
\<close>

subsection \<open>Strings\<close>

text \<open>The characters matched by the regular expression class \<^verbatim>\<open>\s\<close> and removed by
  \<^verbatim>\<open>String.prototype.trim\<close>: tab, line feed, vertical tab, form feed, carriage return,
  space and no-break space.\<close>

definition isWhitespace :: "char \<Rightarrow> bool" where
  "isWhitespace c \<longleftrightarrow>
     c \<in> set [CHR 0x09, CHR 0x0A, CHR 0x0B, CHR 0x0C, CHR 0x0D, CHR '' '', CHR 0xA0]"

text \<open>\<^verbatim>\<open>toLowerCase\<close>: A to Z and the upper-case letters of U+00C0 to U+00DE (the
  multiplication sign U+00D7 apart) move up by 32; every other code unit stays.\<close>

definition isUpper :: "char \<Rightarrow> bool" where
  "isUpper c \<longleftrightarrow>
     (let n = (of_char c :: nat)
      in (65 \<le> n \<and> n \<le> 90) \<or> (192 \<le> n \<and> n \<le> 222 \<and> n \<noteq> 215))"

definition toLowerChar :: "char \<Rightarrow> char" where
  "toLowerChar c = (if isUpper c then char_of ((of_char c :: nat) + 32) else c)"

definition toLowerCase :: "string \<Rightarrow> string" where
  "toLowerCase s = map toLowerChar s"

text \<open>\<^verbatim>\<open>s.replace(/\s+/g, '')\<close> deletes every run of whitespace, that is every
  whitespace character.\<close>

definition stripWhitespace :: "string \<Rightarrow> string" where
  "stripWhitespace s = filter (\<lambda>c. \<not> isWhitespace c) s"

text \<open>\<^verbatim>\<open>s.replace(/pat/g, rep)\<close> for a literal, non-empty pattern: scan from the left,
  replace a match and continue behind it.\<close>

fun replaceAll :: "string \<Rightarrow> string \<Rightarrow> string \<Rightarrow> string" where
  "replaceAll pat rep [] = []"
| "replaceAll pat rep (c # cs) =
     (if pat \<noteq> [] \<and> prefix pat (c # cs)
      then rep @ replaceAll pat rep (drop (length pat) (c # cs))
      else c # replaceAll pat rep cs)"

text \<open>\<^verbatim>\<open>s.includes(pat)\<close>.\<close>

fun includesStr :: "string \<Rightarrow> string \<Rightarrow> bool" where
  "includesStr [] pat = (pat = [])"
| "includesStr (c # cs) pat = (prefix pat (c # cs) \<or> includesStr cs pat)"

text \<open>\<^verbatim>\<open>s.trim()\<close>.\<close>

definition trim :: "string \<Rightarrow> string" where
  "trim s = rev (dropWhile isWhitespace (rev (dropWhile isWhitespace s)))"

text \<open>\<^verbatim>\<open>s.split('\n')\<close>: the pieces between line feeds; the empty string gives one
  empty piece.\<close>

definition newline :: char where
  "newline = CHR 0x0A"

fun splitLines :: "string \<Rightarrow> string list" where
  "splitLines [] = [[]]"
| "splitLines (c # cs) =
     (if c = newline then [] # splitLines cs
      else (case splitLines cs of
              [] \<Rightarrow> [[c]]
            | l # ls \<Rightarrow> (c # l) # ls))"

definition dq :: string where
  "dq = [CHR 0x22]"

text \<open>The template literal \<^verbatim>\<open>`onCommand:${cmdId}`\<close>.\<close>

definition onCommandEvent :: "string \<Rightarrow> string" where
  "onCommandEvent cmdId = ''onCommand:'' @ cmdId"

subsection \<open>Data model\<close>

datatype ConflictType = Command | Keybinding | Activation | Registration

datatype Severity = Warning | Error

record Conflict =
  conflict_type :: ConflictType
  conflict_id :: string
  sources :: "string list"
  severity :: Severity
  description :: string
  extensionId :: "string option"

text \<open>A keybinding contribution of a manifest; an absent variant is \<open>None\<close>.\<close>

record KeybindingContribution =
  key :: "string option"
  mac :: "string option"
  linux :: "string option"
  win :: "string option"
  command :: string

text \<open>An entry of \<^verbatim>\<open>vscode.extensions.all\<close>. The fields \<open>commands\<close> (the command ids
  of \<^verbatim>\<open>contributes.commands\<close>), \<open>keybindings\<close> and \<open>activationEvents\<close> are the lists the
  code reads, empty when the manifest has none.\<close>

record Extension =
  ext_id :: string
  isActive :: bool
  displayName :: "string option"
  name :: string
  commands :: "string list"
  keybindings :: "KeybindingContribution list"
  activationEvents :: "string list"

text \<open>\<^verbatim>\<open>ext.packageJSON.displayName || ext.packageJSON.name\<close>: an absent or empty
  display name falls back to the name.\<close>

definition ownerName :: "Extension \<Rightarrow> string" where
  "ownerName ext =
     (case displayName ext of
        None \<Rightarrow> name ext
      | Some d \<Rightarrow> if d = [] then name ext else d)"

text \<open>A \<^verbatim>\<open>Map<string, T[]>\<close> keeps its keys in insertion order: an association list.
  \<open>mapPush m k v\<close> is \<^verbatim>\<open>if (!m.has(k)) m.set(k, []); m.get(k).push(v)\<close>.\<close>

fun mapPush :: "('k \<times> 'v list) list \<Rightarrow> 'k \<Rightarrow> 'v \<Rightarrow> ('k \<times> 'v list) list" where
  "mapPush [] k v = [(k, [v])]"
| "mapPush ((k', vs) # m) k v =
     (if k' = k then (k', vs @ [v]) # m else (k', vs) # mapPush m k v)"

text \<open>A run of pushes, used to describe the maps the detectors build.\<close>

definition pushAll :: "('k \<times> 'v list) list \<Rightarrow> ('k \<times> 'v) list \<Rightarrow> ('k \<times> 'v list) list" where
  "pushAll m ps = foldl (\<lambda>m p. mapPush m (fst p) (snd p)) m ps"

subsection \<open>detectCommandConflicts\<close>

definition commandMapOf :: "Extension list \<Rightarrow> (string \<times> string list) list" where
  "commandMapOf exts =
     foldl (\<lambda>commandMap ext.
              foldl (\<lambda>commandMap cmdId. mapPush commandMap cmdId (ownerName ext))
                commandMap (commands ext))
       [] exts"

definition commandConflict :: "string \<Rightarrow> string list \<Rightarrow> Conflict" where
  "commandConflict cmdId srcs =
     \<lparr> conflict_type = Command, conflict_id = cmdId, sources = srcs, severity = Error,
       description = ''Command '' @ dq @ cmdId @ dq @ '' is registered by multiple extensions'',
       extensionId = None \<rparr>"

definition detectCommandConflicts :: "Extension list \<Rightarrow> Conflict list" where
  "detectCommandConflicts exts =
     map (\<lambda>(cmdId, srcs). commandConflict cmdId srcs)
       (filter (\<lambda>(cmdId, srcs). length srcs > 1) (commandMapOf exts))"

text \<open>The contributions of a snapshot, in manifest order: one pair of command id and
  owner name for each entry of each component's command list.\<close>

definition contributions :: "Extension list \<Rightarrow> (string \<times> string) list" where
  "contributions exts =
     concat (map (\<lambda>ext. map (\<lambda>cmdId. (cmdId, ownerName ext)) (commands ext)) exts)"

definition contributors :: "Extension list \<Rightarrow> string \<Rightarrow> string list" where
  "contributors exts cmdId = map snd (filter (\<lambda>p. fst p = cmdId) (contributions exts))"

text \<open>The components of a snapshot that contribute a command id.\<close>

definition contributingComponents :: "Extension list \<Rightarrow> string \<Rightarrow> Extension list" where
  "contributingComponents exts cmdId = filter (\<lambda>ext. cmdId \<in> set (commands ext)) exts"

subsection \<open>detectActivationConflicts\<close>

definition activationMapOf :: "Extension list \<Rightarrow> (string \<times> string list) list" where
  "activationMapOf exts =
     foldl (\<lambda>activationMap ext.
              foldl (\<lambda>activationMap event.
                       if event = ''*'' \<or> event = ''onStartupFinished'' then activationMap
                       else mapPush activationMap event (ownerName ext))
                activationMap (activationEvents ext))
       [] exts"

text \<open>The decimal digits of \<^verbatim>\<open>${sources.length}\<close>.\<close>

fun digitsOf :: "nat \<Rightarrow> string" where
  "digitsOf n =
     (if n < 10 then [char_of (48 + n)]
      else digitsOf (n div 10) @ [char_of (48 + n mod 10)])"

definition activationConflict :: "string \<Rightarrow> string list \<Rightarrow> Conflict" where
  "activationConflict event srcs =
     \<lparr> conflict_type = Activation, conflict_id = event, sources = srcs, severity = Warning,
       description = ''Multiple extensions ('' @ digitsOf (length srcs) @ '') activate on '' @ dq
          @ event @ dq @ ''. This may impact editor responsiveness.'',
       extensionId = None \<rparr>"

definition detectActivationConflicts :: "Extension list \<Rightarrow> Conflict list" where
  "detectActivationConflicts exts =
     map (\<lambda>(event, srcs). activationConflict event srcs)
       (filter (\<lambda>(event, srcs). length srcs > 2) (activationMapOf exts))"

text \<open>The declarations of a snapshot, in manifest order: one pair of event and owner
  name for each entry of each component's activation-event list; the owners tallied for
  an event; and the components that declare an event.\<close>

definition declarations :: "Extension list \<Rightarrow> (string \<times> string) list" where
  "declarations exts =
     concat (map (\<lambda>ext. map (\<lambda>event. (event, ownerName ext)) (activationEvents ext)) exts)"

definition tallied :: "Extension list \<Rightarrow> string \<Rightarrow> string list" where
  "tallied exts event = map snd (filter (\<lambda>p. fst p = event) (declarations exts))"

definition declaringComponents :: "Extension list \<Rightarrow> string \<Rightarrow> Extension list" where
  "declaringComponents exts event = filter (\<lambda>ext. event \<in> set (activationEvents ext)) exts"

definition ignoredEvent :: "string \<Rightarrow> bool" where
  "ignoredEvent event \<longleftrightarrow> event = ''*'' \<or> event = ''onStartupFinished''"

subsection \<open>normalizeKeybinding\<close>

definition normalizeKeybinding :: "string \<Rightarrow> string" where
  "normalizeKeybinding k =
     replaceAll ''meta+'' ''cmd+''
       (replaceAll ''command+'' ''cmd+''
         (replaceAll ''option+'' ''alt+''
           (replaceAll ''control+'' ''ctrl+''
             (stripWhitespace (toLowerCase k)))))"

text \<open>Auxiliary notions for the proofs about \<open>normalizeKeybinding\<close>: what one alias
  replacement does to the text in front of a \<^verbatim>\<open>+\<close>, the four replacements in a row, and
  the characters that lower-casing and whitespace stripping leave.\<close>

definition aliasSeg :: "string \<Rightarrow> string \<Rightarrow> string \<Rightarrow> string" where
  "aliasSeg w w' seg = (if suffix w seg then take (length seg - length w) seg @ w' else seg)"

definition aliasSegs :: "string \<Rightarrow> string" where
  "aliasSegs seg =
     aliasSeg ''meta'' ''cmd'' (aliasSeg ''command'' ''cmd''
       (aliasSeg ''option'' ''alt'' (aliasSeg ''control'' ''ctrl'' seg)))"

definition aliasPass :: "string \<Rightarrow> string" where
  "aliasPass s =
     replaceAll ''meta+'' ''cmd+''
       (replaceAll ''command+'' ''cmd+''
         (replaceAll ''option+'' ''alt+''
           (replaceAll ''control+'' ''ctrl+'' s)))"

definition cleanChar :: "char \<Rightarrow> bool" where
  "cleanChar c \<longleftrightarrow> \<not> isUpper c \<and> \<not> isWhitespace c"

subsection \<open>detectRegistrationMismatches\<close>

definition isBuiltin :: "Extension \<Rightarrow> bool" where
  "isBuiltin ext \<longleftrightarrow> prefix ''vscode.'' (ext_id ext) \<or> prefix ''microsoft.'' (ext_id ext)"

definition ghostConflict :: "Extension \<Rightarrow> string \<Rightarrow> Conflict" where
  "ghostConflict ext cmdId =
     \<lparr> conflict_type = Registration, conflict_id = cmdId, sources = [ownerName ext],
       severity = Error,
       description = ''Command '' @ dq @ cmdId @ dq
          @ '' is defined in package.json but not registered in code. Users will see ''
          @ dq @ ''Command not found'' @ dq @ ''.'',
       extensionId = Some (ext_id ext) \<rparr>"

definition missingEventConflict :: "Extension \<Rightarrow> string \<Rightarrow> Conflict" where
  "missingEventConflict ext cmdId =
     \<lparr> conflict_type = Registration, conflict_id = cmdId, sources = [ownerName ext],
       severity = Warning,
       description = ''Command '' @ dq @ cmdId @ dq @ '' is missing '' @ dq
          @ onCommandEvent cmdId @ dq
          @ '' in activationEvents. It may fail to trigger if the extension isn'' @ [CHR 0x27]
          @ ''t already active.'',
       extensionId = Some (ext_id ext) \<rparr>"

definition eagerConflict :: "Extension \<Rightarrow> Conflict" where
  "eagerConflict ext =
     \<lparr> conflict_type = Activation, conflict_id = ''*'', sources = [ownerName ext],
       severity = Warning,
       description = ''Extension uses wildcard activation ('' @ dq @ ''*'' @ dq
          @ ''). This significantly impacts VS Code startup time.'',
       extensionId = None \<rparr>"

text \<open>The body of the loop over a component's declared commands.\<close>

definition commandChecks :: "string set \<Rightarrow> Extension \<Rightarrow> string \<Rightarrow> Conflict list" where
  "commandChecks runtimeCommands ext cmdId =
     (if cmdId \<notin> runtimeCommands \<and> isActive ext then [ghostConflict ext cmdId] else [])
     @ (let hasOnCommand = onCommandEvent cmdId \<in> set (activationEvents ext);
            hasWildcard = ''*'' \<in> set (activationEvents ext)
                          \<or> ''onStartupFinished'' \<in> set (activationEvents ext)
        in if \<not> hasOnCommand \<and> \<not> hasWildcard then [missingEventConflict ext cmdId] else [])"

text \<open>The body of the loop over the components.\<close>

definition extensionChecks :: "string set \<Rightarrow> Extension \<Rightarrow> Conflict list" where
  "extensionChecks runtimeCommands ext =
     (if isBuiltin ext then []
      else concat (map (commandChecks runtimeCommands ext) (commands ext))
           @ (if ''*'' \<in> set (activationEvents ext) then [eagerConflict ext] else []))"

definition detectRegistrationMismatches :: "string set \<Rightarrow> Extension list \<Rightarrow> Conflict list" where
  "detectRegistrationMismatches runtimeCommands exts =
     concat (map (extensionChecks runtimeCommands) exts)"

text \<open>The ghost-command conflicts reported for one command of one component.\<close>

definition isGhostFor :: "Extension \<Rightarrow> string \<Rightarrow> Conflict \<Rightarrow> bool" where
  "isGhostFor ext cmdId c \<longleftrightarrow>
     conflict_type c = Registration \<and> conflict_id c = cmdId \<and> severity c = Error
     \<and> extensionId c = Some (ext_id ext)"

subsection \<open>suggestAlternativeKeybindings\<close>

definition modifiers :: "string list" where
  "modifiers = [''ctrl+shift'', ''ctrl+alt'', ''alt+shift'', ''ctrl+shift+alt'']"

text \<open>The 48 keys: twelve function keys, the letters, the digits from 1 to 9 and then 0.
  Each letter and digit is a key of one character.\<close>

definition functionKeys :: "string list" where
  "functionKeys =
     [''f1'', ''f2'', ''f3'', ''f4'', ''f5'', ''f6'', ''f7'', ''f8'', ''f9'', ''f10'', ''f11'', ''f12'']"

definition keys :: "string list" where
  "keys = functionKeys
     @ map (\<lambda>c. [c]) ''abcdefghijklmnopqrstuvwxyz''
     @ map (\<lambda>c. [c]) ''1234567890''"

text \<open>\<^verbatim>\<open>kb.key || kb.mac || kb.linux || kb.win\<close>: the first variant that is present and
  not empty.\<close>

definition truthy :: "string option \<Rightarrow> bool" where
  "truthy v \<longleftrightarrow> (case v of None \<Rightarrow> False | Some s \<Rightarrow> s \<noteq> [])"

definition representativeKey :: "KeybindingContribution \<Rightarrow> string option" where
  "representativeKey kb =
     (if truthy (key kb) then key kb
      else if truthy (mac kb) then mac kb
      else if truthy (linux kb) then linux kb
      else if truthy (win kb) then win kb
      else None)"

definition usedBindingsOf :: "Extension list \<Rightarrow> string set" where
  "usedBindingsOf exts =
     set (concat (map (\<lambda>ext.
            concat (map (\<lambda>kb. case representativeKey kb of
                                 None \<Rightarrow> []
                               | Some k \<Rightarrow> [normalizeKeybinding k])
                      (keybindings ext)))
          exts))"

text \<open>The inner loop over the keys. \<open>Inl\<close> is the early \<^verbatim>\<open>return suggestions\<close>, \<open>Inr\<close>
  the list with which the outer loop goes on.\<close>

fun keyLoop :: "string set \<Rightarrow> string \<Rightarrow> string list \<Rightarrow> string list
    \<Rightarrow> string list + string list" where
  "keyLoop usedBindings modifier [] suggestions = Inr suggestions"
| "keyLoop usedBindings modifier (k # ks) suggestions =
     (let binding = modifier @ ''+'' @ k;
          normalized = normalizeKeybinding binding
      in if normalized \<notin> usedBindings
         then (let suggestions' = suggestions @ [binding]
               in if length suggestions' \<ge> 10 then Inl suggestions'
                  else keyLoop usedBindings modifier ks suggestions')
         else keyLoop usedBindings modifier ks suggestions)"

fun modifierLoop :: "string set \<Rightarrow> string list \<Rightarrow> string list \<Rightarrow> string list" where
  "modifierLoop usedBindings [] suggestions = suggestions"
| "modifierLoop usedBindings (modifier # ms) suggestions =
     (case keyLoop usedBindings modifier keys suggestions of
        Inl result \<Rightarrow> result
      | Inr suggestions' \<Rightarrow> modifierLoop usedBindings ms suggestions')"

text \<open>The loops over a given used-set, and the whole function, which builds the used-set
  from the snapshot and never reads \<open>currentBinding\<close>.\<close>

definition suggestFrom :: "string set \<Rightarrow> string list" where
  "suggestFrom usedBindings = modifierLoop usedBindings modifiers []"

definition suggestAlternativeKeybindings :: "string \<Rightarrow> Extension list \<Rightarrow> string list" where
  "suggestAlternativeKeybindings currentBinding exts = suggestFrom (usedBindingsOf exts)"

text \<open>The candidates in enumeration order: modifier outer, key inner.\<close>

definition candidates :: "string list" where
  "candidates = concat (map (\<lambda>modifier. map (\<lambda>k. modifier @ ''+'' @ k) keys) modifiers)"

subsection \<open>Remediation\<close>

text \<open>A manifest document after \<^verbatim>\<open>JSON.parse\<close>: its \<^verbatim>\<open>activationEvents\<close> array (\<open>None\<close>
  when the field is absent) and the rest of the object, which the code never touches.
  \<^verbatim>\<open>JSON.stringify\<close> followed by \<^verbatim>\<open>JSON.parse\<close> gives the object back, so a document is
  kept in parsed form. A document that cannot be opened or parsed is \<open>None\<close>.\<close>

record ManifestJson =
  json_activationEvents :: "string list option"
  json_other :: string

type_synonym Documents = "string \<Rightarrow> ManifestJson option"

text \<open>The part of the host the two remediation paths can change: the manifest documents
  (by the id of the extension they belong to), the clipboard and the messages shown.\<close>

record Host =
  documents :: Documents
  clipboard :: string
  shown :: "string list"

text \<open>\<^verbatim>\<open>fixMissingActivationEvents\<close>; \<open>selection\<close> is the button the user picks in the
  message box, \<open>None\<close> when the box is dismissed.\<close>

definition fixMissingActivationEvents :: "Conflict \<Rightarrow> string option \<Rightarrow> Host \<Rightarrow> bool \<times> Host" where
  "fixMissingActivationEvents conflict selection host =
     (let newEvent = onCommandEvent (conflict_id conflict);
          message = ''To fix this, add '' @ dq @ newEvent @ dq @ '' to '' @ [CHR 0x27]
                    @ ''activationEvents'' @ [CHR 0x27] @ '' in package.json.'';
          host1 = host \<lparr> shown := shown host @ [''Manual Fix Required: '' @ message] \<rparr>;
          host2 = (if selection = Some ''Copy to Clipboard''
                   then host1 \<lparr> clipboard := newEvent \<rparr> else host1)
      in (True, host2))"

text \<open>The filter of \<^verbatim>\<open>fixAllMissingActivationEvents\<close> on the detector's conflicts.\<close>

definition isMissingEvent :: "Conflict \<Rightarrow> bool" where
  "isMissingEvent c \<longleftrightarrow>
     conflict_type c = Registration \<and> truthy (extensionId c)
     \<and> includesStr (description c) (''missing '' @ dq @ ''onCommand:'')"

definition groupStep :: "(string \<times> string list) list \<Rightarrow> Conflict \<Rightarrow> (string \<times> string list) list" where
  "groupStep extensionGroups conflict =
     (case extensionId conflict of
        None \<Rightarrow> extensionGroups
      | Some extId \<Rightarrow> mapPush extensionGroups extId (conflict_id conflict))"

definition getExtension :: "Extension list \<Rightarrow> string \<Rightarrow> Extension option" where
  "getExtension exts extId = find (\<lambda>ext. ext_id ext = extId) exts"

text \<open>The loop that appends \<^verbatim>\<open>onCommand:<id>\<close> for each id of a group.\<close>

definition appendEvent :: "string list \<Rightarrow> string \<Rightarrow> string list" where
  "appendEvent events cmdId =
     (let newEvent = onCommandEvent cmdId
      in if newEvent \<in> set events then events else events @ [newEvent])"

definition appendEvents :: "string list \<Rightarrow> string list \<Rightarrow> string list" where
  "appendEvents events commandIds = foldl appendEvent events commandIds"

text \<open>\<^verbatim>\<open>if (!json.activationEvents) json.activationEvents = []\<close>, then the array.\<close>

definition ensuredEvents :: "ManifestJson \<Rightarrow> string list" where
  "ensuredEvents json = (case json_activationEvents json of None \<Rightarrow> [] | Some evs \<Rightarrow> evs)"

text \<open>The body of the loop over the groups: the edits it adds to the workspace edit, each
  the id of the extension whose \<^verbatim>\<open>package.json\<close> is replaced and the new content.\<close>

definition groupEdits :: "Extension list \<Rightarrow> Documents \<Rightarrow> string \<times> string list
    \<Rightarrow> (string \<times> ManifestJson) list" where
  "groupEdits exts docs g =
     (case g of (extId, commandIds) \<Rightarrow>
        (case getExtension exts extId of
           None \<Rightarrow> []
         | Some extension \<Rightarrow>
             (case docs extId of
                None \<Rightarrow> []
              | Some json \<Rightarrow>
                  (let original = ensuredEvents json;
                       events = appendEvents original commandIds
                   in if length events > length original
                      then [(extId, json \<lparr> json_activationEvents := Some (sort events) \<rparr>)]
                      else []))))"

definition extensionGroupsOf :: "string set \<Rightarrow> Extension list \<Rightarrow> (string \<times> string list) list" where
  "extensionGroupsOf runtimeCommands exts =
     foldl groupStep []
       (filter isMissingEvent (detectRegistrationMismatches runtimeCommands exts))"

text \<open>The workspace edit that \<^verbatim>\<open>fixAllMissingActivationEvents\<close> builds; it is empty when
  the function returns early.\<close>

definition batchEdits :: "string set \<Rightarrow> Extension list \<Rightarrow> Documents
    \<Rightarrow> (string \<times> ManifestJson) list" where
  "batchEdits runtimeCommands exts docs =
     (if filter isMissingEvent (detectRegistrationMismatches runtimeCommands exts) = [] then []
      else concat (map (groupEdits exts docs) (extensionGroupsOf runtimeCommands exts)))"

text \<open>\<^verbatim>\<open>vscode.workspace.applyEdit\<close>, when it succeeds: every replaced document has its new
  content.\<close>

definition applyEdit :: "(string \<times> ManifestJson) list \<Rightarrow> Documents \<Rightarrow> Documents" where
  "applyEdit edits docs = foldl (\<lambda>d e. d(fst e := Some (snd e))) docs edits"

text \<open>\<^verbatim>\<open>fixAllMissingActivationEvents\<close>; \<open>applyOk\<close> is whether the host's \<^verbatim>\<open>applyEdit\<close>
  succeeds. Of the messages, \<open>shown\<close> records the information messages; the error message
  for a document that fails to open or parse is not recorded.\<close>

definition fixAllMissingActivationEvents :: "string set \<Rightarrow> Extension list \<Rightarrow> bool \<Rightarrow> Host
    \<Rightarrow> bool \<times> Host" where
  "fixAllMissingActivationEvents runtimeCommands exts applyOk host =
     (if filter isMissingEvent (detectRegistrationMismatches runtimeCommands exts) = []
      then (True, host \<lparr> shown := shown host @ [''No missing activation events detected.''] \<rparr>)
      else if applyOk
      then (True, host \<lparr> documents := applyEdit (batchEdits runtimeCommands exts (documents host))
                                         (documents host),
                         shown := shown host @ [''Successfully updated activationEvents for ''
                           @ digitsOf (length (extensionGroupsOf runtimeCommands exts))
                           @ '' extensions.''] \<rparr>)
      else (False, host))"

subsection \<open>The log monitor\<close>

datatype Level = Info | Warn | LevelError | Debug

record LogEntry =
  timestamp :: string
  level :: Level
  message :: string
  source :: string

text \<open>A text read from a file is a JavaScript string in full: a list of UTF-16 code
  units. \<open>unitsOf\<close> gives the code units of a string of the model, \<open>codeUnits\<close> those of a
  code point.\<close>

definition unitsOf :: "string \<Rightarrow> nat list" where
  "unitsOf s = map of_char s"

definition codeUnits :: "nat \<Rightarrow> nat list" where
  "codeUnits cp =
     (if cp < 0x10000 then [cp]
      else [0xD800 + (cp - 0x10000) div 0x400, 0xDC00 + (cp - 0x10000) mod 0x400])"

text \<open>\<^verbatim>\<open>Buffer.toString('utf8')\<close>: the UTF-8 decoder with replacement. The state is the code
  point collected so far, the number of continuation bytes still needed and the range
  allowed for the next byte. A byte that cannot start a sequence gives U+FFFD; a byte that
  cannot continue the sequence at hand gives U+FFFD for that sequence and is then decoded
  again as the start of the next one; a sequence cut by the end of the input gives
  U+FFFD.\<close>

function decodeBytes :: "nat \<Rightarrow> nat \<Rightarrow> nat \<Rightarrow> nat \<Rightarrow> nat list \<Rightarrow> nat list" where
  "decodeBytes cp needed lo hi [] = (if needed = 0 then [] else [0xFFFD])"
| "decodeBytes cp needed lo hi (b # bs) =
     (if needed = 0
      then (if b < 0x80 then b # decodeBytes 0 0 0x80 0xBF bs
            else if 0xC2 \<le> b \<and> b \<le> 0xDF then decodeBytes (b mod 0x20) 1 0x80 0xBF bs
            else if 0xE0 \<le> b \<and> b \<le> 0xEF
            then decodeBytes (b mod 0x10) 2
                   (if b = 0xE0 then 0xA0 else 0x80) (if b = 0xED then 0x9F else 0xBF) bs
            else if 0xF0 \<le> b \<and> b \<le> 0xF4
            then decodeBytes (b mod 0x08) 3
                   (if b = 0xF0 then 0x90 else 0x80) (if b = 0xF4 then 0x8F else 0xBF) bs
            else 0xFFFD # decodeBytes 0 0 0x80 0xBF bs)
      else if b < lo \<or> hi < b then 0xFFFD # decodeBytes 0 0 0x80 0xBF (b # bs)
      else if needed = 1 then codeUnits (cp * 0x40 + b mod 0x40) @ decodeBytes 0 0 0x80 0xBF bs
      else decodeBytes (cp * 0x40 + b mod 0x40) (needed - 1) 0x80 0xBF bs)"
  by pat_completeness auto
termination
  by (relation "measure (\<lambda>(cp, needed, lo, hi, bs). 2 * length bs + (if needed = 0 then 0 else 1))")
    auto

definition utf8Decode :: "string \<Rightarrow> nat list" where
  "utf8Decode bytes = decodeBytes 0 0 0x80 0xBF (map of_char bytes)"

text \<open>The number of bytes of a text in UTF-8; each half of a surrogate pair counts for two
  of the four bytes of its code point.\<close>

definition unitSize :: "nat \<Rightarrow> nat" where
  "unitSize u =
     (if u < 0x80 then 1 else if u < 0x800 then 2
      else if 0xD800 \<le> u \<and> u < 0xE000 then 2 else 3)"

definition utf8Size :: "nat list \<Rightarrow> nat" where
  "utf8Size us = sum_list (map unitSize us)"

text \<open>\<^verbatim>\<open>readFile\<close>. A file is the list of its bytes, \<open>None\<close> when \<^verbatim>\<open>stat\<close>, \<^verbatim>\<open>open\<close> or the
  read throws. \<open>fdRead\<close> is \<^verbatim>\<open>fd.read(buffer, 0, length, position)\<close> on a zero-filled buffer
  of \<open>length\<close> bytes.\<close>

definition MAX_BYTES :: nat where
  "MAX_BYTES = 50 * 1024"

definition truncationMarker :: string where
  "truncationMarker = ''...[TRUNCATED]...'' @ [newline]"

definition fdRead :: "string \<Rightarrow> nat \<Rightarrow> nat \<Rightarrow> string" where
  "fdRead bytes len position =
     (let got = take len (drop position bytes)
      in got @ replicate (len - length got) (CHR 0x00))"

definition readFile :: "string option \<Rightarrow> nat list" where
  "readFile file =
     (case file of
        None \<Rightarrow> []
      | Some bytes \<Rightarrow>
          (let size = length bytes
           in if size \<le> MAX_BYTES then utf8Decode bytes
              else unitsOf truncationMarker
                   @ utf8Decode (fdRead bytes MAX_BYTES (size - MAX_BYTES))))"

text \<open>The regular expression \<^verbatim>\<open>/^\[(.*?)\] \[(.*?)\] \[(.*?)\] (.*)$/\<close>. A dot matches no
  line terminator, so a line with a carriage return does not match. Each lazy group ends
  at the first place where its closing text occurs: when the rest of the pattern matches
  behind a later occurrence, it also matches behind the first one, so backtracking never
  moves a group further. \<open>splitAtFirst sep s\<close> is the text before and after the first
  occurrence of \<open>sep\<close> in \<open>s\<close>.\<close>

fun splitAtFirst :: "string \<Rightarrow> string \<Rightarrow> (string \<times> string) option" where
  "splitAtFirst sep [] = None"
| "splitAtFirst sep (c # cs) =
     (if prefix sep (c # cs) then Some ([], drop (length sep) (c # cs))
      else (case splitAtFirst sep cs of
              None \<Rightarrow> None
            | Some (before, after) \<Rightarrow> Some (c # before, after)))"

definition isLineTerminator :: "char \<Rightarrow> bool" where
  "isLineTerminator c \<longleftrightarrow> c = CHR 0x0A \<or> c = CHR 0x0D"

definition matchLine :: "string \<Rightarrow> (string \<times> string \<times> string \<times> string) option" where
  "matchLine line =
     (if \<exists>c \<in> set line. isLineTerminator c then None
      else (case line of
              [] \<Rightarrow> None
            | c # r0 \<Rightarrow>
                if c \<noteq> CHR ''['' then None
                else (case splitAtFirst ''] ['' r0 of
                        None \<Rightarrow> None
                      | Some (ts, r1) \<Rightarrow>
                          (case splitAtFirst ''] ['' r1 of
                             None \<Rightarrow> None
                           | Some (channel, r2) \<Rightarrow>
                               (case splitAtFirst ''] '' r2 of
                                  None \<Rightarrow> None
                                | Some (levelToken, msg) \<Rightarrow>
                                    Some (ts, channel, levelToken, msg))))))"

definition normalizeLevel :: "string \<Rightarrow> Level" where
  "normalizeLevel lv =
     (let l = toLowerCase lv
      in if includesStr l ''err'' then LevelError
         else if includesStr l ''warn'' then Warn
         else if includesStr l ''debug'' \<or> includesStr l ''trace'' then Debug
         else Info)"

text \<open>The body of the loop of \<^verbatim>\<open>parseLogContent\<close> over the lines.\<close>

definition parseStep :: "string \<Rightarrow> LogEntry list \<Rightarrow> string \<Rightarrow> LogEntry list" where
  "parseStep src entries line =
     (case matchLine line of
        Some (ts, channel, levelToken, msg) \<Rightarrow>
          entries @ [\<lparr> timestamp = ts, level = normalizeLevel levelToken, message = msg,
                      source = (if channel = ''exthost'' then src else channel) \<rparr>]
      | None \<Rightarrow>
          if trim line \<noteq> [] \<and> length entries > 0
          then entries[length entries - 1 :=
                 (entries ! (length entries - 1))
                   \<lparr> message := message (entries ! (length entries - 1)) @ [newline] @ line \<rparr>]
          else entries)"


definition parseLogContent :: "string \<Rightarrow> string \<Rightarrow> LogEntry list" where
  "parseLogContent content src = foldl (parseStep src) [] (splitLines content)"

text \<open>\<^verbatim>\<open>getLogs\<close>. The log store is \<open>None\<close> when the root log directory cannot be
  determined; a source's directory is \<open>None\<close> when it cannot be listed, otherwise its
  entries with their name, type and, for a file, its bytes. \<open>localeCompare\<close> is the host's
  string collation; \<^verbatim>\<open>Array.prototype.sort\<close> is stable. The parser is modelled on strings
  of code units below 256: \<open>latin1Text\<close> is a text as such a string, and the result of
  \<open>getLogs\<close> is \<open>None\<close> for a directory with a log file whose text has another code unit,
  which this model of the parser does not cover.\<close>

datatype FileType = File | Directory | Unknown






section \<open>Properties\<close>

subsection \<open>Keybinding normalization\<close>

text \<open>A literal pattern that ends in a delimiter which occurs nowhere else in it matches
  only at the end of a delimited segment, so a replacement acts segment by segment.\<close>

lemma replaceAll_no_delim:
  "d \<in> set pat \<Longrightarrow> d \<notin> set s \<Longrightarrow> replaceAll pat rep s = s"
proof (induction s)
  case Nil
  then show ?case by simp
next
  case (Cons c cs)
  have "\<not> prefix pat (c # cs)"
  proof
    assume "prefix pat (c # cs)"
    then have "set pat \<subseteq> set (c # cs)" by (rule set_mono_prefix)
    with Cons.prems show False by auto
  qed
  with Cons show ?case by simp
qed

lemma first_delim_unique:
  "d \<notin> set w \<Longrightarrow> d \<notin> set seg \<Longrightarrow> seg @ d # rest = w @ d # z \<Longrightarrow> w = seg"
proof (induction seg arbitrary: w)
  case Nil
  then show ?case by (cases w) simp_all
next
  case (Cons c seg)
  show ?case
  proof (cases w)
    case Nil
    with Cons.prems show ?thesis by simp
  next
    case (Cons a w')
    with Cons.prems have "a = c" "seg @ d # rest = w' @ d # z" "d \<notin> set w'" "d \<notin> set seg"
      by simp_all
    with Cons.IH [of w'] Cons show ?thesis by simp
  qed
qed

lemma prefix_delim_iff:
  assumes "d \<notin> set w" "d \<notin> set seg"
  shows "prefix (w @ [d]) (seg @ d # rest) \<longleftrightarrow> w = seg"
proof
  assume "prefix (w @ [d]) (seg @ d # rest)"
  then obtain z where "seg @ d # rest = (w @ [d]) @ z" by (auto simp: prefix_def)
  then have "seg @ d # rest = w @ d # z" by simp
  with assms show "w = seg" by (rule first_delim_unique)
next
  assume "w = seg"
  then show "prefix (w @ [d]) (seg @ d # rest)" by (simp add: prefix_def)
qed

lemma replaceAll_segment:
  assumes "d \<notin> set w" "d \<notin> set w'"
  shows "d \<notin> set seg \<Longrightarrow>
    replaceAll (w @ [d]) (w' @ [d]) (seg @ d # rest) =
      aliasSeg w w' seg @ d # replaceAll (w @ [d]) (w' @ [d]) rest"
proof (induction seg)
  case Nil
  have "prefix (w @ [d]) ([] @ d # rest) \<longleftrightarrow> w = []"
    using assms(1) by (rule prefix_delim_iff) simp
  then have pre: "prefix (w @ [d]) (d # rest) \<longleftrightarrow> w = []" by simp
  show ?case
  proof (cases "w = []")
    case True
    then show ?thesis by (simp add: aliasSeg_def)
  next
    case False
    with pre have "\<not> prefix (w @ [d]) (d # rest)" by simp
    with False show ?thesis by (simp add: aliasSeg_def)
  qed
next
  case (Cons c seg)
  have pre: "prefix (w @ [d]) ((c # seg) @ d # rest) \<longleftrightarrow> w = c # seg"
    using assms(1) Cons.prems by (rule prefix_delim_iff)
  show ?case
  proof (cases "w = c # seg")
    case True
    with pre show ?thesis by (simp add: aliasSeg_def)
  next
    case False
    with pre have np: "\<not> prefix (w @ [d]) (c # seg @ d # rest)" by simp
    from Cons have IH: "replaceAll (w @ [d]) (w' @ [d]) (seg @ d # rest) =
      aliasSeg w w' seg @ d # replaceAll (w @ [d]) (w' @ [d]) rest" by simp
    have "aliasSeg w w' (c # seg) = c # aliasSeg w w' seg"
      using False by (auto simp: aliasSeg_def suffix_Cons Suc_diff_le suffix_length_le)
    with np IH show ?thesis by simp
  qed
qed

lemma aliasSeg_no_delim: "d \<notin> set seg \<Longrightarrow> d \<notin> set w' \<Longrightarrow> d \<notin> set (aliasSeg w w' seg)"
  by (auto simp: aliasSeg_def dest: in_set_takeD)



lemma aliasPass_no_plus: "CHR ''+'' \<notin> set s \<Longrightarrow> aliasPass s = s"
  by (simp add: aliasPass_def replaceAll_no_delim [of "CHR ''+''"])

lemma aliasPass_segment:
  assumes "CHR ''+'' \<notin> set seg"
  shows "aliasPass (seg @ CHR ''+'' # rest) = aliasSegs seg @ CHR ''+'' # aliasPass rest"
proof -
  let ?d = "CHR ''+''"
  have 1: "replaceAll ''control+'' ''ctrl+'' (sg @ ?d # r) =
      aliasSeg ''control'' ''ctrl'' sg @ ?d # replaceAll ''control+'' ''ctrl+'' r"
    if "?d \<notin> set sg" for sg r
    using replaceAll_segment [of ?d "''control''" "''ctrl''" sg r] that by simp
  have 2: "replaceAll ''option+'' ''alt+'' (sg @ ?d # r) =
      aliasSeg ''option'' ''alt'' sg @ ?d # replaceAll ''option+'' ''alt+'' r"
    if "?d \<notin> set sg" for sg r
    using replaceAll_segment [of ?d "''option''" "''alt''" sg r] that by simp
  have 3: "replaceAll ''command+'' ''cmd+'' (sg @ ?d # r) =
      aliasSeg ''command'' ''cmd'' sg @ ?d # replaceAll ''command+'' ''cmd+'' r"
    if "?d \<notin> set sg" for sg r
    using replaceAll_segment [of ?d "''command''" "''cmd''" sg r] that by simp
  have 4: "replaceAll ''meta+'' ''cmd+'' (sg @ ?d # r) =
      aliasSeg ''meta'' ''cmd'' sg @ ?d # replaceAll ''meta+'' ''cmd+'' r"
    if "?d \<notin> set sg" for sg r
    using replaceAll_segment [of ?d "''meta''" "''cmd''" sg r] that by simp
  have a: "?d \<notin> set (aliasSeg ''control'' ''ctrl'' seg)"
    using assms by (rule aliasSeg_no_delim) simp
  then have b: "?d \<notin> set (aliasSeg ''option'' ''alt'' (aliasSeg ''control'' ''ctrl'' seg))"
    by (rule aliasSeg_no_delim) simp
  then have c: "?d \<notin> set (aliasSeg ''command'' ''cmd''
      (aliasSeg ''option'' ''alt'' (aliasSeg ''control'' ''ctrl'' seg)))"
    by (rule aliasSeg_no_delim) simp
  show ?thesis
    unfolding aliasPass_def aliasSegs_def
    by (simp only: 1 [OF assms] 2 [OF a] 3 [OF b] 4 [OF c])
qed










lemma toLowerCase_fixed: "\<forall>c \<in> set s. \<not> isUpper c \<Longrightarrow> toLowerCase s = s"
  by (induction s) (auto simp: toLowerCase_def toLowerChar_def)

lemma stripWhitespace_fixed: "\<forall>c \<in> set s. \<not> isWhitespace c \<Longrightarrow> stripWhitespace s = s"
  by (induction s) (auto simp: stripWhitespace_def)

lemma normalizeKeybinding_alt: "normalizeKeybinding k = aliasPass (stripWhitespace (toLowerCase k))"
  by (simp add: normalizeKeybinding_def aliasPass_def)





subsection \<open>Command collisions\<close>

text \<open>The insertion-ordered map after a run of pushes: its keys are distinct, they are
  the keys pushed, and each key holds its values in the order they were pushed.\<close>

lemma keys_mapPush: "set (map fst (mapPush m k v)) = insert k (set (map fst m))"
  by (induction m k v rule: mapPush.induct) auto

lemma distinct_mapPush: "distinct (map fst m) \<Longrightarrow> distinct (map fst (mapPush m k v))"
proof (induction m k v rule: mapPush.induct)
  case (1 k v)
  then show ?case by simp
next
  case (2 k' vs m k v)
  have "set (map fst (mapPush m k v)) = insert k (set (map fst m))" by (rule keys_mapPush)
  with 2 show ?case by auto
qed

lemma map_of_mapPush:
  "map_of (mapPush m k v) k' =
     (if k' = k then Some ((case map_of m k of None \<Rightarrow> [] | Some vs \<Rightarrow> vs) @ [v])
      else map_of m k')"
  by (induction m k v rule: mapPush.induct) auto

lemma pushAll_snoc: "pushAll m (ps @ [p]) = mapPush (pushAll m ps) (fst p) (snd p)"
  by (simp add: pushAll_def)

lemma keys_pushAll: "set (map fst (pushAll [] ps)) = fst ` set ps"
proof (induction ps rule: rev_induct)
  case Nil
  then show ?case by (simp add: pushAll_def)
next
  case (snoc p ps)
  then show ?case by (simp only: pushAll_snoc keys_mapPush) auto
qed

lemma distinct_pushAll: "distinct (map fst (pushAll [] ps))"
proof (induction ps rule: rev_induct)
  case Nil
  then show ?case by (simp add: pushAll_def)
next
  case (snoc p ps)
  then show ?case by (simp only: pushAll_snoc distinct_mapPush)
qed

lemma filter_absent_key: "k \<notin> fst ` set ps \<Longrightarrow> filter (\<lambda>q. fst q = k) ps = []"
  by (induction ps) auto

lemma map_of_pushAll:
  "map_of (pushAll [] ps) k =
     (if k \<in> fst ` set ps then Some (map snd (filter (\<lambda>p. fst p = k) ps)) else None)"
proof (induction ps rule: rev_induct)
  case Nil
  then show ?case by (simp add: pushAll_def)
next
  case (snoc p ps)
  show ?case
  proof (cases "k = fst p")
    case True
    have "filter (\<lambda>q. fst q = fst p) ps = []" if "fst p \<notin> fst ` set ps"
      using that by (rule filter_absent_key)
    with True snoc show ?thesis by (simp add: pushAll_snoc map_of_mapPush)
  next
    case False
    with snoc show ?thesis by (auto simp: pushAll_snoc map_of_mapPush)
  qed
qed

lemma mem_pushAll:
  "(k, vs) \<in> set (pushAll [] ps) \<longleftrightarrow>
     k \<in> fst ` set ps \<and> vs = map snd (filter (\<lambda>p. fst p = k) ps)"
proof -
  have "(k, vs) \<in> set (pushAll [] ps) \<longleftrightarrow> map_of (pushAll [] ps) k = Some vs"
    using distinct_pushAll [of ps] by simp
  then show ?thesis by (auto simp: map_of_pushAll)
qed

lemma nested_pushes:
  "foldl (\<lambda>m ext. foldl (\<lambda>m x. mapPush m x (ownerName ext)) m (commands ext)) m0 exts =
     pushAll m0 (contributions exts)"
proof (induction exts arbitrary: m0)
  case Nil
  then show ?case by (simp add: pushAll_def contributions_def)
next
  case (Cons ext exts)
  have "foldl (\<lambda>m x. mapPush m x (ownerName ext)) m0 (commands ext) =
      pushAll m0 (map (\<lambda>x. (x, ownerName ext)) (commands ext))"
    by (simp add: pushAll_def foldl_map)
  with Cons show ?case by (simp add: pushAll_def contributions_def)
qed

lemma commandMapOf_pushAll: "commandMapOf exts = pushAll [] (contributions exts)"
  by (simp add: commandMapOf_def nested_pushes)

lemma mem_commandMapOf:
  "(k, vs) \<in> set (commandMapOf exts) \<longleftrightarrow>
     k \<in> fst ` set (contributions exts) \<and> vs = contributors exts k"
  by (simp add: commandMapOf_pushAll mem_pushAll contributors_def)

lemma contributors_nonempty:
  "Suc 0 < length (contributors exts k) \<Longrightarrow> k \<in> fst ` set (contributions exts)"
proof -
  assume "Suc 0 < length (contributors exts k)"
  then have "filter (\<lambda>p. fst p = k) (contributions exts) \<noteq> []"
    by (auto simp: contributors_def)
  then obtain p where "p \<in> set (contributions exts)" "fst p = k"
    by (auto simp: filter_empty_conv)
  then show ?thesis by auto
qed

lemma command_conflict_ids:
  "map conflict_id (detectCommandConflicts exts) =
     map fst (filter (\<lambda>(cmdId, srcs). length srcs > 1) (commandMapOf exts))"
  by (simp add: detectCommandConflicts_def commandConflict_def case_prod_unfold comp_def)

lemma command_conflicts_distinct: "distinct (map conflict_id (detectCommandConflicts exts))"
  unfolding command_conflict_ids commandMapOf_pushAll
  by (rule distinct_map_filter) (rule distinct_pushAll)

lemma command_conflicts_ids_set:
  "set (map conflict_id (detectCommandConflicts exts)) =
     {cmdId. length (contributors exts cmdId) > 1}"
proof -
  have "set (map conflict_id (detectCommandConflicts exts)) =
      {k. \<exists>vs. (k, vs) \<in> set (commandMapOf exts) \<and> length vs > 1}"
    unfolding command_conflict_ids by force
  also have "\<dots> = {k. k \<in> fst ` set (contributions exts) \<and> length (contributors exts k) > 1}"
    by (simp add: mem_commandMapOf)
  also have "\<dots> = {k. length (contributors exts k) > 1}"
    by (auto dest: contributors_nonempty)
  finally show ?thesis .
qed

lemma command_conflicts_fields:
  assumes "c \<in> set (detectCommandConflicts exts)"
  shows "conflict_type c = Command \<and> severity c = Error
    \<and> sources c = contributors exts (conflict_id c)"
proof -
  from assms obtain k vs where kv: "(k, vs) \<in> set (commandMapOf exts)"
    and c: "c = commandConflict k vs"
    by (auto simp: detectCommandConflicts_def)
  from kv have "vs = contributors exts k" by (simp add: mem_commandMapOf)
  with c show ?thesis by (simp add: commandConflict_def)
qed

text \<open>What the detector computes: one conflict for each command id that more than one
  entry of the command lists names, of type command and severity error, with one source
  for each such entry, in manifest order.\<close>

lemma command_collisions_by_entry:
  "distinct (map conflict_id (detectCommandConflicts exts))
   \<and> set (map conflict_id (detectCommandConflicts exts))
       = {cmdId. length (contributors exts cmdId) > 1}
   \<and> (\<forall>c \<in> set (detectCommandConflicts exts).
         conflict_type c = Command \<and> severity c = Error
         \<and> sources c = contributors exts (conflict_id c)
         \<and> length (sources c) = length (contributors exts (conflict_id c)))
   \<and> length (detectCommandConflicts exts)
       = card {cmdId. length (contributors exts cmdId) > 1}"
proof -
  have "card (set (map conflict_id (detectCommandConflicts exts)))
      = length (map conflict_id (detectCommandConflicts exts))"
    using command_conflicts_distinct [of exts] by (rule distinct_card)
  then have len: "length (detectCommandConflicts exts)
      = card {cmdId. length (contributors exts cmdId) > 1}"
    by (simp only: command_conflicts_ids_set length_map)
  have fields: "\<forall>c \<in> set (detectCommandConflicts exts).
         conflict_type c = Command \<and> severity c = Error
         \<and> sources c = contributors exts (conflict_id c)
         \<and> length (sources c) = length (contributors exts (conflict_id c))"
    using command_conflicts_fields [of _ exts] by simp
  from command_conflicts_distinct [of exts] command_conflicts_ids_set [of exts] fields len
  show ?thesis by blast
qed

lemma command_collisions_example:
  "(\<exists>c \<in> set (detectCommandConflicts
       [\<lparr> ext_id = ''pub.alpha'', isActive = True, displayName = Some ''Alpha'', name = ''alpha'',
           commands = [''foo.bar'', ''alpha.run''], keybindings = [], activationEvents = [] \<rparr>,
        \<lparr> ext_id = ''pub.beta'', isActive = True, displayName = None, name = ''beta'',
           commands = [''foo.bar''], keybindings = [], activationEvents = [] \<rparr>]).
      conflict_id c = ''foo.bar'' \<and> conflict_type c = Command \<and> severity c = Error
      \<and> sources c = [''Alpha'', ''beta''])
   \<and> card {cmdId. length (contributors
       [\<lparr> ext_id = ''pub.alpha'', isActive = True, displayName = Some ''Alpha'', name = ''alpha'',
           commands = [''foo.bar'', ''alpha.run''], keybindings = [], activationEvents = [] \<rparr>,
        \<lparr> ext_id = ''pub.beta'', isActive = True, displayName = None, name = ''beta'',
           commands = [''foo.bar''], keybindings = [], activationEvents = [] \<rparr>] cmdId) > 1} = 1"
proof -
  let ?exts = "[\<lparr> ext_id = ''pub.alpha'', isActive = True, displayName = Some ''Alpha'', name = ''alpha'',
           commands = [''foo.bar'', ''alpha.run''], keybindings = [], activationEvents = [] \<rparr>,
        \<lparr> ext_id = ''pub.beta'', isActive = True, displayName = None, name = ''beta'',
           commands = [''foo.bar''], keybindings = [], activationEvents = [] \<rparr>]"
  have e: "detectCommandConflicts ?exts = [commandConflict ''foo.bar'' [''Alpha'', ''beta'']]"
    by (simp add: detectCommandConflicts_def commandMapOf_def ownerName_def)
  have c: "contributors ?exts ''foo.bar'' = [''Alpha'', ''beta'']"
    by (simp add: contributors_def contributions_def ownerName_def)
  from command_collisions_by_entry [of ?exts] e c show ?thesis
    by (simp add: commandConflict_def)
qed

text \<open>When no component lists a command id twice, the entries that name an id are the
  components that contribute it.\<close>

lemma entries_of_component:
  "distinct xs \<Longrightarrow>
     map snd (filter (\<lambda>p. fst p = k) (map (\<lambda>x. (x, owner)) xs))
       = (if k \<in> set xs then [owner] else [])"
proof (induction xs)
  case Nil
  then show ?case by simp
next
  case (Cons x xs)
  then show ?case by (cases "x = k") auto
qed

lemma contributors_components:
  "\<forall>ext \<in> set exts. distinct (commands ext) \<Longrightarrow>
     contributors exts cmdId = map ownerName (contributingComponents exts cmdId)"
proof (induction exts)
  case Nil
  then show ?case by (simp add: contributors_def contributions_def contributingComponents_def)
next
  case (Cons ext exts)
  then have IH: "contributors exts cmdId = map ownerName (contributingComponents exts cmdId)"
    by simp
  from Cons.prems have "map snd (filter (\<lambda>p. fst p = cmdId)
      (map (\<lambda>x. (x, ownerName ext)) (commands ext)))
      = (if cmdId \<in> set (commands ext) then [ownerName ext] else [])"
    by (intro entries_of_component) simp
  with IH show ?case
    by (simp add: contributors_def contributions_def contributingComponents_def)
qed

text \<open>C1 asks for a conflict on a command id exactly when more than one contributor has
  it, with as many sources as contributors. The detector pushes an owner for every entry
  of a command list, so a component that lists \<^verbatim>\<open>foo.bar\<close> twice is reported as two
  sources of a collision, in a conflict that says the command is registered by multiple
  extensions, although one component contributes the id.\<close>

theorem C1_repeated_command_tallied:
  "detectCommandConflicts
     [\<lparr> ext_id = ''pub.alpha'', isActive = True, displayName = Some ''Alpha'', name = ''alpha'',
         commands = [''foo.bar'', ''foo.bar''], keybindings = [], activationEvents = [] \<rparr>]
     = [commandConflict ''foo.bar'' [''Alpha'', ''Alpha'']]
   \<and> length (contributingComponents
     [\<lparr> ext_id = ''pub.alpha'', isActive = True, displayName = Some ''Alpha'', name = ''alpha'',
         commands = [''foo.bar'', ''foo.bar''], keybindings = [], activationEvents = [] \<rparr>]
     ''foo.bar'') = 1
   \<and> description (commandConflict ''foo.bar'' [''Alpha'', ''Alpha''])
     = ''Command '' @ dq @ ''foo.bar'' @ dq @ '' is registered by multiple extensions''"
  by (simp add: detectCommandConflicts_def commandMapOf_def ownerName_def
      contributingComponents_def commandConflict_def)

subsection \<open>Activation overlap\<close>

lemma event_pushes:
  "foldl (\<lambda>m event. if event = ''*'' \<or> event = ''onStartupFinished'' then m
                     else mapPush m event owner) m0 evs
     = pushAll m0 (filter (\<lambda>p. \<not> ignoredEvent (fst p)) (map (\<lambda>event. (event, owner)) evs))"
  by (induction evs arbitrary: m0) (simp_all add: pushAll_def ignoredEvent_def)

lemma pushAll_append: "pushAll m (ps @ qs) = pushAll (pushAll m ps) qs"
  by (simp add: pushAll_def)

lemma nested_event_pushes:
  "foldl (\<lambda>m ext.
            foldl (\<lambda>m event. if event = ''*'' \<or> event = ''onStartupFinished'' then m
                              else mapPush m event (ownerName ext)) m (activationEvents ext))
     m0 exts
     = pushAll m0 (filter (\<lambda>p. \<not> ignoredEvent (fst p)) (declarations exts))"
proof (induction exts arbitrary: m0)
  case Nil
  then show ?case by (simp add: pushAll_def declarations_def)
next
  case (Cons ext exts)
  then show ?case by (simp add: event_pushes declarations_def pushAll_append)
qed

lemma filter_kept_key:
  "filter (\<lambda>p. fst p = k) (filter (\<lambda>p. \<not> ignoredEvent (fst p)) ps)
     = (if ignoredEvent k then [] else filter (\<lambda>p. fst p = k) ps)"
  by (induction ps) auto

lemma mem_activationMapOf:
  "(k, vs) \<in> set (activationMapOf exts) \<longleftrightarrow>
     \<not> ignoredEvent k \<and> k \<in> fst ` set (declarations exts) \<and> vs = tallied exts k"
proof -
  have "filter (\<lambda>p. fst p = k) (filter (\<lambda>p. \<not> ignoredEvent (fst p)) (declarations exts))
      = (if ignoredEvent k then [] else filter (\<lambda>p. fst p = k) (declarations exts))"
    by (rule filter_kept_key)
  moreover have "activationMapOf exts
      = pushAll [] (filter (\<lambda>p. \<not> ignoredEvent (fst p)) (declarations exts))"
    by (simp add: activationMapOf_def nested_event_pushes)
  ultimately show ?thesis by (auto simp: mem_pushAll tallied_def)
qed

text \<open>What the detector computes: one conflict for each event other than \<^verbatim>\<open>*\<close> and
  \<^verbatim>\<open>onStartupFinished\<close> that more than two entries of the activation-event lists name, of
  type activation and severity warning.\<close>

lemma activation_conflicts_by_entry:
  assumes "c \<in> set (detectActivationConflicts exts)"
  shows "conflict_id c \<noteq> ''*'' \<and> conflict_id c \<noteq> ''onStartupFinished''
    \<and> conflict_type c = Activation \<and> severity c = Warning
    \<and> sources c = tallied exts (conflict_id c) \<and> length (tallied exts (conflict_id c)) > 2"
proof -
  from assms obtain k vs where kv: "(k, vs) \<in> set (activationMapOf exts)" "length vs > 2"
    and c: "c = activationConflict k vs"
    by (auto simp: detectActivationConflicts_def)
  from kv have "\<not> ignoredEvent k" "vs = tallied exts k" by (simp_all add: mem_activationMapOf)
  with c kv(2) show ?thesis by (simp add: activationConflict_def ignoredEvent_def)
qed

lemma activation_conflict_emitted:
  assumes "\<not> ignoredEvent event" "length (tallied exts event) > 2"
  shows "activationConflict event (tallied exts event) \<in> set (detectActivationConflicts exts)"
proof -
  from assms(2) have "filter (\<lambda>p. fst p = event) (declarations exts) \<noteq> []"
    by (auto simp: tallied_def)
  then obtain p where "p \<in> set (declarations exts)" "fst p = event"
    by (auto simp: filter_empty_conv)
  then have "event \<in> fst ` set (declarations exts)" by auto
  with assms have "(event, tallied exts event) \<in> set (activationMapOf exts)"
    by (simp add: mem_activationMapOf)
  with assms(2) show ?thesis by (force simp: detectActivationConflicts_def)
qed

text \<open>When no component lists an event twice, the tally of an event is the list of the
  components that declare it.\<close>

lemma tallied_components:
  "\<forall>ext \<in> set exts. distinct (activationEvents ext) \<Longrightarrow>
     tallied exts event = map ownerName (declaringComponents exts event)"
proof (induction exts)
  case Nil
  then show ?case by (simp add: tallied_def declarations_def declaringComponents_def)
next
  case (Cons ext exts)
  then have IH: "tallied exts event = map ownerName (declaringComponents exts event)"
    by simp
  from Cons.prems have "map snd (filter (\<lambda>p. fst p = event)
      (map (\<lambda>x. (x, ownerName ext)) (activationEvents ext)))
      = (if event \<in> set (activationEvents ext) then [ownerName ext] else [])"
    by (intro entries_of_component) simp
  with IH show ?case
    by (simp add: tallied_def declarations_def declaringComponents_def)
qed

text \<open>C2 asks for a conflict on an event exactly when more than two distinct components
  declare it. The detector pushes an owner for every entry of an activation-event list, so
  one component that lists an event three times is reported as three extensions: below,
  a single component declares \<^verbatim>\<open>onLanguage:js\<close>, and the detector emits a conflict for it
  whose description says that 3 extensions activate on the event.\<close>

theorem C2_repeated_event_tallied:
  "detectActivationConflicts
     [\<lparr> ext_id = ''pub.alpha'', isActive = True, displayName = Some ''Alpha'', name = ''alpha'',
         commands = [], keybindings = [],
         activationEvents = [''onLanguage:js'', ''onLanguage:js'', ''onLanguage:js''] \<rparr>]
     = [activationConflict ''onLanguage:js'' [''Alpha'', ''Alpha'', ''Alpha'']]
   \<and> length (declaringComponents
     [\<lparr> ext_id = ''pub.alpha'', isActive = True, displayName = Some ''Alpha'', name = ''alpha'',
         commands = [], keybindings = [],
         activationEvents = [''onLanguage:js'', ''onLanguage:js'', ''onLanguage:js''] \<rparr>]
     ''onLanguage:js'') = 1
   \<and> take 23 (description (activationConflict ''onLanguage:js'' [''Alpha'', ''Alpha'', ''Alpha'']))
     = ''Multiple extensions (3)''"
proof -
  let ?ext = "\<lparr> ext_id = ''pub.alpha'', isActive = True, displayName = Some ''Alpha'',
         name = ''alpha'', commands = [], keybindings = [],
         activationEvents = [''onLanguage:js'', ''onLanguage:js'', ''onLanguage:js''] \<rparr>"
  have 1: "detectActivationConflicts [?ext]
      = [activationConflict ''onLanguage:js'' [''Alpha'', ''Alpha'', ''Alpha'']]"
    by (simp add: detectActivationConflicts_def activationMapOf_def ownerName_def)
  have 2: "length (declaringComponents [?ext] ''onLanguage:js'') = 1"
    by (simp add: declaringComponents_def)
  have "digitsOf 3 = ''3''" by code_simp
  then have 3: "take 23 (description
      (activationConflict ''onLanguage:js'' [''Alpha'', ''Alpha'', ''Alpha''])) = ''Multiple extensions (3)''"
    by (simp add: activationConflict_def)
  from 1 2 3 show ?thesis by blast
qed

subsection \<open>Registration mismatches\<close>

lemma ghost_in_commandChecks:
  "filter (isGhostFor ext cmdId) (commandChecks rt ext x) =
     (if x = cmdId \<and> cmdId \<notin> rt \<and> isActive ext then [ghostConflict ext cmdId] else [])"
  by (auto simp: commandChecks_def isGhostFor_def ghostConflict_def missingEventConflict_def
      Let_def)

lemma ghost_count_commands:
  "isActive ext \<Longrightarrow> cmdId \<notin> rt \<Longrightarrow>
     length (filter (isGhostFor ext cmdId) (concat (map (commandChecks rt ext) xs)))
       = count_list xs cmdId"
  by (induction xs) (simp_all add: ghost_in_commandChecks)

lemma errors_in_commandChecks:
  "\<not> isActive ext \<Longrightarrow> filter (\<lambda>c. severity c = Error) (commandChecks rt ext x) = []"
  by (simp add: commandChecks_def missingEventConflict_def Let_def)

lemma errors_inactive_commands:
  "\<not> isActive ext \<Longrightarrow>
     filter (\<lambda>c. severity c = Error) (concat (map (commandChecks rt ext) xs)) = []"
  by (induction xs) (simp_all add: errors_in_commandChecks)

lemma extensionId_commandChecks:
  "c \<in> set (commandChecks rt ext x) \<Longrightarrow> extensionId c = Some (ext_id ext)"
  by (auto simp: commandChecks_def ghostConflict_def missingEventConflict_def Let_def
      split: if_splits)

lemma extensionId_extensionChecks:
  "c \<in> set (extensionChecks rt ext) \<Longrightarrow> extensionId c = Some (ext_id ext) \<or> extensionId c = None"
  by (auto simp: extensionChecks_def eagerConflict_def dest: extensionId_commandChecks
      split: if_splits)

lemma other_extension_checks:
  assumes "ext_id ext' \<noteq> ext_id ext"
  shows "filter (\<lambda>c. extensionId c = Some (ext_id ext)) (extensionChecks rt ext') = []"
  using assms extensionId_extensionChecks [of _ rt ext'] by (fastforce simp: filter_empty_conv)

lemma attributed_conflicts:
  "ext \<in> set exts \<Longrightarrow> distinct (map ext_id exts) \<Longrightarrow>
     filter (\<lambda>c. extensionId c = Some (ext_id ext)) (concat (map (extensionChecks rt) exts))
       = filter (\<lambda>c. extensionId c = Some (ext_id ext)) (extensionChecks rt ext)"
proof (induction exts)
  case Nil
  then show ?case by simp
next
  case (Cons e exts)
  show ?case
  proof (cases "e = ext")
    case True
    with Cons.prems have "\<forall>e' \<in> set exts. ext_id e' \<noteq> ext_id ext"
      by (force simp: image_iff)
    then have "filter (\<lambda>c. extensionId c = Some (ext_id ext))
        (concat (map (extensionChecks rt) exts)) = []"
      by (induction exts) (simp_all add: other_extension_checks)
    with True show ?thesis by simp
  next
    case False
    with Cons.prems have mem: "ext \<in> set exts" and "ext_id e \<noteq> ext_id ext" by auto
    then have "filter (\<lambda>c. extensionId c = Some (ext_id ext)) (extensionChecks rt e) = []"
      by (simp add: other_extension_checks)
    with Cons mem show ?thesis by simp
  qed
qed

text \<open>C4, as stated, asks for exactly one ghost-command conflict for a command that an
  active, non-built-in component declares and the runtime table lacks. The detector emits
  one for each entry of the component's command list: a component that lists
  \<^verbatim>\<open>foo.bar\<close> twice gets two.\<close>

theorem C4_duplicate_declaration_counterexample:
  "length (filter
     (isGhostFor
        \<lparr> ext_id = ''pub.alpha'', isActive = True, displayName = Some ''Alpha'', name = ''alpha'',
          commands = [''foo.bar'', ''foo.bar''], keybindings = [], activationEvents = [''*''] \<rparr>
        ''foo.bar'')
     (detectRegistrationMismatches {}
        [\<lparr> ext_id = ''pub.alpha'', isActive = True, displayName = Some ''Alpha'', name = ''alpha'',
           commands = [''foo.bar'', ''foo.bar''], keybindings = [], activationEvents = [''*''] \<rparr>]))
   = 2"
  by (simp add: detectRegistrationMismatches_def extensionChecks_def commandChecks_def
      isBuiltin_def isGhostFor_def ghostConflict_def eagerConflict_def)

text \<open>C4, amended: for a non-built-in component that is active and a command id absent
  from the runtime command table, the detector emits one conflict of type registration,
  severity error and that id for each entry of the component's command list that names
  the id (exactly one when the component lists it once); for a component that is not
  active it emits no error conflict, whatever the table holds. In a snapshot whose
  component ids are distinct, the conflicts of the whole result that carry the component's
  id are those emitted while the component was checked.\<close>

theorem C4_ghost_commands:
  assumes "\<not> isBuiltin ext"
  shows "(isActive ext \<longrightarrow> cmdId \<notin> rt \<longrightarrow>
            length (filter (isGhostFor ext cmdId) (extensionChecks rt ext))
              = count_list (commands ext) cmdId)
       \<and> (\<not> isActive ext \<longrightarrow> filter (\<lambda>c. severity c = Error) (extensionChecks rt ext) = [])
       \<and> (ext \<in> set exts \<longrightarrow> distinct (map ext_id exts) \<longrightarrow>
            filter (\<lambda>c. extensionId c = Some (ext_id ext)) (detectRegistrationMismatches rt exts)
              = filter (\<lambda>c. extensionId c = Some (ext_id ext)) (extensionChecks rt ext))"
proof (intro conjI impI)
  assume "isActive ext" "cmdId \<notin> rt"
  then show "length (filter (isGhostFor ext cmdId) (extensionChecks rt ext))
      = count_list (commands ext) cmdId"
    using assms
    by (simp add: extensionChecks_def ghost_count_commands isGhostFor_def eagerConflict_def)
next
  assume "\<not> isActive ext"
  then show "filter (\<lambda>c. severity c = Error) (extensionChecks rt ext) = []"
    using assms by (simp add: extensionChecks_def errors_inactive_commands eagerConflict_def)
next
  assume "ext \<in> set exts" "distinct (map ext_id exts)"
  then show "filter (\<lambda>c. extensionId c = Some (ext_id ext)) (detectRegistrationMismatches rt exts)
      = filter (\<lambda>c. extensionId c = Some (ext_id ext)) (extensionChecks rt ext)"
    unfolding detectRegistrationMismatches_def by (rule attributed_conflicts)
qed

theorem C4_ghost_commands_witness:
  "length (filter
     (isGhostFor
        \<lparr> ext_id = ''pub.alpha'', isActive = True, displayName = Some ''Alpha'', name = ''alpha'',
          commands = [''foo.bar''], keybindings = [], activationEvents = [] \<rparr>
        ''foo.bar'')
     (extensionChecks {}
        \<lparr> ext_id = ''pub.alpha'', isActive = True, displayName = Some ''Alpha'', name = ''alpha'',
          commands = [''foo.bar''], keybindings = [], activationEvents = [] \<rparr>)) = 1
   \<and> filter (\<lambda>c. severity c = Error)
     (extensionChecks {}
        \<lparr> ext_id = ''pub.alpha'', isActive = False, displayName = Some ''Alpha'', name = ''alpha'',
          commands = [''foo.bar''], keybindings = [], activationEvents = [] \<rparr>) = []
   \<and> filter (\<lambda>c. extensionId c = Some ''pub.alpha'')
     (detectRegistrationMismatches {}
        [\<lparr> ext_id = ''pub.alpha'', isActive = True, displayName = Some ''Alpha'', name = ''alpha'',
           commands = [''foo.bar''], keybindings = [], activationEvents = [] \<rparr>])
     = filter (\<lambda>c. extensionId c = Some ''pub.alpha'')
     (extensionChecks {}
        \<lparr> ext_id = ''pub.alpha'', isActive = True, displayName = Some ''Alpha'', name = ''alpha'',
          commands = [''foo.bar''], keybindings = [], activationEvents = [] \<rparr>)"
proof -
  let ?on = "\<lparr> ext_id = ''pub.alpha'', isActive = True, displayName = Some ''Alpha'',
      name = ''alpha'', commands = [''foo.bar''], keybindings = [], activationEvents = [] \<rparr>"
  let ?off = "\<lparr> ext_id = ''pub.alpha'', isActive = False, displayName = Some ''Alpha'',
      name = ''alpha'', commands = [''foo.bar''], keybindings = [], activationEvents = [] \<rparr>"
  have on: "\<not> isBuiltin ?on" and off: "\<not> isBuiltin ?off"
    by (simp_all add: isBuiltin_def)
  from C4_ghost_commands [OF on, of "''foo.bar''" "{}" "[?on]"]
    C4_ghost_commands [OF off, of "''foo.bar''" "{}" "[?off]"]
  show ?thesis by simp
qed

subsection \<open>Keybinding suggestions\<close>

text \<open>Every candidate is its own normal form, so the test on the normalized candidate is a
  test on the candidate; the two loops with the early return then compute the first ten
  candidates outside the used-set.\<close>

lemma candidates_length: "length candidates = 192"
  by (simp add: candidates_def modifiers_def keys_def functionKeys_def)

lemma keys_plain: "\<forall>k \<in> set keys. CHR ''+'' \<notin> set k \<and> (\<forall>c \<in> set k. cleanChar c)"
  by (simp add: keys_def functionKeys_def cleanChar_def isUpper_def isWhitespace_def)

lemma modifiers_clean: "\<forall>m \<in> set modifiers. \<forall>c \<in> set (m @ ''+''). cleanChar c"
  by (simp add: modifiers_def cleanChar_def isUpper_def isWhitespace_def)

lemma normalize_plain:
  assumes "\<forall>c \<in> set s. cleanChar c"
  shows "normalizeKeybinding s = aliasPass s"
proof -
  have "toLowerCase s = s" using assms by (intro toLowerCase_fixed) (simp add: cleanChar_def)
  moreover have "stripWhitespace s = s"
    using assms by (intro stripWhitespace_fixed) (simp add: cleanChar_def)
  ultimately show ?thesis by (simp add: normalizeKeybinding_alt)
qed

lemma aliasSegs_words:
  "aliasSegs ''ctrl'' = ''ctrl''" "aliasSegs ''shift'' = ''shift''" "aliasSegs ''alt'' = ''alt''"
  by code_simp+

lemma aliasPass_two:
  assumes "CHR ''+'' \<notin> set a" "CHR ''+'' \<notin> set b" "CHR ''+'' \<notin> set k"
    "aliasSegs a = a" "aliasSegs b = b"
  shows "aliasPass (a @ CHR ''+'' # b @ CHR ''+'' # k) = a @ CHR ''+'' # b @ CHR ''+'' # k"
  using assms by (simp add: aliasPass_segment aliasPass_no_plus)

lemma aliasPass_three:
  assumes "CHR ''+'' \<notin> set a" "CHR ''+'' \<notin> set b" "CHR ''+'' \<notin> set c" "CHR ''+'' \<notin> set k"
    "aliasSegs a = a" "aliasSegs b = b" "aliasSegs c = c"
  shows "aliasPass (a @ CHR ''+'' # b @ CHR ''+'' # c @ CHR ''+'' # k)
    = a @ CHR ''+'' # b @ CHR ''+'' # c @ CHR ''+'' # k"
  using assms by (simp add: aliasPass_segment aliasPass_no_plus)

lemma aliasPass_candidate:
  assumes "m \<in> set modifiers" "CHR ''+'' \<notin> set k"
  shows "aliasPass (m @ ''+'' @ k) = m @ ''+'' @ k"
proof -
  from assms(1) consider "m = ''ctrl+shift''" | "m = ''ctrl+alt''" | "m = ''alt+shift''"
    | "m = ''ctrl+shift+alt''"
    by (auto simp: modifiers_def)
  then show ?thesis
  proof cases
    case 1
    with aliasPass_two [of "''ctrl''" "''shift''" k] assms(2) show ?thesis
      by (simp add: aliasSegs_words)
  next
    case 2
    with aliasPass_two [of "''ctrl''" "''alt''" k] assms(2) show ?thesis
      by (simp add: aliasSegs_words)
  next
    case 3
    with aliasPass_two [of "''alt''" "''shift''" k] assms(2) show ?thesis
      by (simp add: aliasSegs_words)
  next
    case 4
    with aliasPass_three [of "''ctrl''" "''shift''" "''alt''" k] assms(2) show ?thesis
      by (simp add: aliasSegs_words)
  qed
qed

lemma candidate_normalized:
  assumes "m \<in> set modifiers" "k \<in> set keys"
  shows "normalizeKeybinding (m @ ''+'' @ k) = m @ ''+'' @ k"
proof -
  from assms keys_plain modifiers_clean have "\<forall>c \<in> set (m @ ''+'' @ k). cleanChar c"
    by (metis Un_iff append_assoc set_append)
  then have "normalizeKeybinding (m @ ''+'' @ k) = aliasPass (m @ ''+'' @ k)"
    by (rule normalize_plain)
  also have "\<dots> = m @ ''+'' @ k"
    using assms keys_plain by (intro aliasPass_candidate) auto
  finally show ?thesis .
qed

lemma keyLoop_filter:
  assumes "\<forall>k \<in> set ks. normalizeKeybinding (m @ ''+'' @ k) = m @ ''+'' @ k"
  shows "length acc < 10 \<Longrightarrow>
    keyLoop used m ks acc =
      (let found = filter (\<lambda>b. b \<notin> used) (map (\<lambda>k. m @ ''+'' @ k) ks)
       in if length acc + length found \<ge> 10 then Inl (take 10 (acc @ found))
          else Inr (acc @ found))"
  using assms
proof (induction ks arbitrary: acc)
  case Nil
  then show ?case by simp
next
  case (Cons k ks)
  let ?b = "m @ ''+'' @ k"
  let ?found = "filter (\<lambda>b. b \<notin> used) (map (\<lambda>k. m @ ''+'' @ k) ks)"
  from Cons.prems have nb: "normalizeKeybinding ?b = ?b" by simp
  show ?case
  proof (cases "?b \<in> used")
    case True
    with Cons nb show ?thesis by (simp add: Let_def)
  next
    case False
    show ?thesis
    proof (cases "length acc = 9")
      case True
      with False nb show ?thesis by (simp add: Let_def)
    next
      case False
      with Cons.prems have len: "length (acc @ [?b]) < 10" by simp
      have "keyLoop used m ks (acc @ [?b]) =
        (if length (acc @ [?b]) + length ?found \<ge> 10 then Inl (take 10 ((acc @ [?b]) @ ?found))
         else Inr ((acc @ [?b]) @ ?found))"
        using Cons.IH [OF len] Cons.prems(2) by (simp add: Let_def)
      with \<open>?b \<notin> used\<close> nb len show ?thesis by (simp add: Let_def)
    qed
  qed
qed

lemma modifierLoop_filter:
  assumes "\<forall>m \<in> set ms. \<forall>k \<in> set keys. normalizeKeybinding (m @ ''+'' @ k) = m @ ''+'' @ k"
  shows "length acc < 10 \<Longrightarrow>
    modifierLoop used ms acc =
      take 10 (acc @ filter (\<lambda>b. b \<notin> used)
        (concat (map (\<lambda>m. map (\<lambda>k. m @ ''+'' @ k) keys) ms)))"
  using assms
proof (induction ms arbitrary: acc)
  case Nil
  then show ?case by simp
next
  case (Cons m ms)
  let ?found = "filter (\<lambda>b. b \<notin> used) (map (\<lambda>k. m @ ''+'' @ k) keys)"
  from Cons.prems have fixed: "\<forall>k \<in> set keys. normalizeKeybinding (m @ ''+'' @ k) = m @ ''+'' @ k"
    by simp
  have kl: "keyLoop used m keys acc =
      (if length acc + length ?found \<ge> 10 then Inl (take 10 (acc @ ?found))
       else Inr (acc @ ?found))"
    using keyLoop_filter [OF fixed Cons.prems(1), of used] by (simp add: Let_def)
  show ?case
  proof (cases "length acc + length ?found \<ge> 10")
    case True
    with kl show ?thesis by simp
  next
    case False
    then have "length (acc @ ?found) < 10" by simp
    from Cons.IH [OF this] Cons.prems(2) kl False show ?thesis by simp
  qed
qed

lemma suggestFrom_filter: "suggestFrom used = take 10 (filter (\<lambda>b. b \<notin> used) candidates)"
  unfolding suggestFrom_def candidates_def
  using modifierLoop_filter [of modifiers "[]" used] candidate_normalized by simp

text \<open>C5: for every used-set, the suggestions are the first up to 10 candidates, in the
  enumeration order of 4 modifier combinations (outer) and 48 keys (inner), 192 in all,
  that are not in the used-set. No suggestion is in the used-set, the result is the empty
  list when all 192 candidates are used, and the result of the whole function is a function
  of the used-set of the snapshot alone.\<close>

theorem C5_suggestions:
  "suggestFrom used = take 10 (filter (\<lambda>b. b \<notin> used) candidates)
   \<and> suggestAlternativeKeybindings currentBinding exts
       = take 10 (filter (\<lambda>b. b \<notin> usedBindingsOf exts) candidates)
   \<and> length modifiers = 4 \<and> length keys = 48 \<and> length candidates = 192
   \<and> length (suggestFrom used) \<le> 10
   \<and> set (suggestFrom used) \<inter> used = {}
   \<and> (set candidates \<subseteq> used \<longrightarrow> suggestFrom used = [])"
proof -
  have 1: "set (suggestFrom used) \<inter> used = {}"
    unfolding suggestFrom_filter by (auto dest: in_set_takeD)
  have 2: "suggestFrom used = []" if "set candidates \<subseteq> used"
  proof -
    from that have "filter (\<lambda>b. b \<notin> used) candidates = []"
      by (auto simp: filter_empty_conv)
    then show ?thesis by (simp add: suggestFrom_filter)
  qed
  have 3: "length modifiers = 4" "length keys = 48"
    by (simp_all add: modifiers_def keys_def functionKeys_def)
  have 4: "length (suggestFrom used) \<le> 10" by (simp add: suggestFrom_filter)
  from 1 2 3 4 candidates_length show ?thesis
    by (simp add: suggestAlternativeKeybindings_def suggestFrom_filter [symmetric])
qed

theorem C5_suggestions_witness:
  "suggestFrom (set candidates) = []
   \<and> suggestFrom {} =
     [''ctrl+shift+f1'', ''ctrl+shift+f2'', ''ctrl+shift+f3'', ''ctrl+shift+f4'',
      ''ctrl+shift+f5'', ''ctrl+shift+f6'', ''ctrl+shift+f7'', ''ctrl+shift+f8'',
      ''ctrl+shift+f9'', ''ctrl+shift+f10'']"
proof -
  have "take 10 candidates =
     [''ctrl+shift+f1'', ''ctrl+shift+f2'', ''ctrl+shift+f3'', ''ctrl+shift+f4'',
      ''ctrl+shift+f5'', ''ctrl+shift+f6'', ''ctrl+shift+f7'', ''ctrl+shift+f8'',
      ''ctrl+shift+f9'', ''ctrl+shift+f10'']"
    by (simp add: candidates_def modifiers_def keys_def functionKeys_def)
  with C5_suggestions [of "set candidates"] C5_suggestions [of "{}"] show ?thesis by simp
qed

subsection \<open>Batch remediation\<close>

lemma appendEvents_snoc: "appendEvents evs (ids @ [c]) = appendEvent (appendEvents evs ids) c"
  by (simp add: appendEvents_def)

lemma appendEvents_added:
  "\<exists>added. appendEvents evs ids = evs @ added \<and> distinct added \<and> set added \<inter> set evs = {}
     \<and> set added = onCommandEvent ` set ids - set evs"
proof (induction ids rule: rev_induct)
  case Nil
  then show ?case by (simp add: appendEvents_def)
next
  case (snoc c ids)
  then obtain added where a: "appendEvents evs ids = evs @ added" "distinct added"
    "set added \<inter> set evs = {}"
    "set added = onCommandEvent ` set ids - set evs"
    by blast
  let ?n = "onCommandEvent c"
  show ?case
  proof (cases "?n \<in> set (evs @ added)")
    case True
    then have "appendEvents evs (ids @ [c]) = evs @ added"
      by (simp add: appendEvents_snoc appendEvent_def a(1))
    moreover from True a(4) have "set added = onCommandEvent ` set (ids @ [c]) - set evs"
      by auto
    ultimately show ?thesis using a(2,3) by blast
  next
    case False
    then have "appendEvents evs (ids @ [c]) = evs @ (added @ [?n])"
      by (simp add: appendEvents_snoc appendEvent_def a(1))
    moreover from False a(2) have "distinct (added @ [?n])" by simp
    moreover from False a(3) have "set (added @ [?n]) \<inter> set evs = {}" by auto
    moreover from False a(4)
    have "set (added @ [?n]) = onCommandEvent ` set (ids @ [c]) - set evs"
      by auto
    ultimately show ?thesis by blast
  qed
qed

lemma appendEvents_present:
  "\<forall>c \<in> set ids. onCommandEvent c \<in> set evs \<Longrightarrow> appendEvents evs ids = evs"
proof -
  assume p: "\<forall>c \<in> set ids. onCommandEvent c \<in> set evs"
  obtain added where a: "appendEvents evs ids = evs @ added"
    "set added = onCommandEvent ` set ids - set evs"
    using appendEvents_added [of evs ids] by blast
  from p a(2) have "set added = {}" by auto
  with a(1) show ?thesis by simp
qed

lemma appendEvents_holds_all:
  "c \<in> set ids \<Longrightarrow> onCommandEvent c \<in> set (appendEvents evs ids)"
proof -
  assume c: "c \<in> set ids"
  obtain added where a: "appendEvents evs ids = evs @ added"
    "set added = onCommandEvent ` set ids - set evs"
    using appendEvents_added [of evs ids] by blast
  from c a(2) have "onCommandEvent c \<in> set evs \<union> set added" by auto
  with a(1) show ?thesis by simp
qed

lemma appendEvents_rerun: "appendEvents (sort (appendEvents evs ids)) ids = sort (appendEvents evs ids)"
proof (rule appendEvents_present, rule ballI)
  fix c
  assume "c \<in> set ids"
  then have "onCommandEvent c \<in> set (appendEvents evs ids)" by (rule appendEvents_holds_all)
  then show "onCommandEvent c \<in> set (sort (appendEvents evs ids))" by simp
qed

lemma applyEdit_snoc: "applyEdit (es @ [e]) docs = (applyEdit es docs)(fst e := Some (snd e))"
  by (simp add: applyEdit_def)

lemma applyEdit_untouched: "k \<notin> fst ` set edits \<Longrightarrow> applyEdit edits docs k = docs k"
proof (induction edits rule: rev_induct)
  case Nil
  then show ?case by (simp add: applyEdit_def)
next
  case (snoc e es)
  then show ?case by (simp add: applyEdit_snoc)
qed

lemma applyEdit_replaced:
  "(k, j) \<in> set edits \<Longrightarrow> \<forall>j'. (k, j') \<in> set edits \<longrightarrow> j' = j \<Longrightarrow>
     applyEdit edits docs k = Some j"
proof (induction edits rule: rev_induct)
  case Nil
  then show ?case by simp
next
  case (snoc e es)
  obtain a b where e: "e = (a, b)" by (cases e)
  show ?case
  proof (cases "a = k")
    case True
    with snoc.prems(2) e have "b = j" by simp
    with True e show ?thesis by (simp add: applyEdit_snoc)
  next
    case False
    with snoc.prems(1) e have 1: "(k, j) \<in> set es" by simp
    from snoc.prems(2) have 2: "\<forall>j'. (k, j') \<in> set es \<longrightarrow> j' = j" by simp
    from snoc.IH [OF 1 2] False e show ?thesis by (simp add: applyEdit_snoc)
  qed
qed

lemma distinct_groupStep:
  "distinct (map fst m) \<Longrightarrow> distinct (map fst (foldl groupStep m cs))"
proof (induction cs arbitrary: m)
  case Nil
  then show ?case by simp
next
  case (Cons c cs)
  from Cons.prems have "distinct (map fst (groupStep m c))"
    by (simp add: groupStep_def distinct_mapPush split: option.splits)
  with Cons.IH show ?case by simp
qed

lemma distinct_groups: "distinct (map fst (extensionGroupsOf rt exts))"
  by (simp add: extensionGroupsOf_def distinct_groupStep)

lemma groupEdits_cases:
  "groupEdits exts docs (k, ids) = [] \<or>
   (\<exists>ext json. getExtension exts k = Some ext \<and> docs k = Some json
      \<and> length (appendEvents (ensuredEvents json) ids)
          > length (ensuredEvents json)
      \<and> groupEdits exts docs (k, ids)
          = [(k, json \<lparr> json_activationEvents := Some (sort (appendEvents
               (ensuredEvents json) ids)) \<rparr>)])"
proof (cases "getExtension exts k")
  case None
  then show ?thesis by (simp add: groupEdits_def)
next
  case ext: (Some ext)
  show ?thesis
  proof (cases "docs k")
    case None
    with ext show ?thesis by (simp add: groupEdits_def)
  next
    case (Some json)
    with ext show ?thesis by (simp add: groupEdits_def Let_def)
  qed
qed

lemma edit_origin:
  assumes "(k, j) \<in> set (concat (map (groupEdits exts docs) G))"
  shows "\<exists>ids. (k, ids) \<in> set G \<and> groupEdits exts docs (k, ids) = [(k, j)]"
proof -
  from assms obtain g where g: "g \<in> set G" and m: "(k, j) \<in> set (groupEdits exts docs g)"
    by auto
  obtain k' ids where gk: "g = (k', ids)" by (cases g)
  from groupEdits_cases [of exts docs k' ids] m gk
  have "k' = k \<and> groupEdits exts docs (k', ids) = [(k, j)]" by auto
  with g gk show ?thesis by blast
qed

lemma groupEdits_same_doc:
  "docs' k = docs k \<Longrightarrow> groupEdits exts docs' (k, ids) = groupEdits exts docs (k, ids)"
  by (cases "getExtension exts k") (simp_all add: groupEdits_def)

lemma group_rerun:
  assumes G: "distinct (map fst G)" and g: "(k, ids) \<in> set G"
  shows "groupEdits exts (applyEdit (concat (map (groupEdits exts docs) G)) docs) (k, ids) = []"
proof -
  let ?edits = "concat (map (groupEdits exts docs) G)"
  let ?docs1 = "applyEdit ?edits docs"
  have only: "groupEdits exts docs (k, ids) = [(k, j)]" if "(k, j) \<in> set ?edits" for j
  proof -
    from edit_origin [OF that] obtain ids' where "(k, ids') \<in> set G"
      "groupEdits exts docs (k, ids') = [(k, j)]" by blast
    moreover from G this(1) g have "ids' = ids" by (rule eq_key_imp_eq_value)
    ultimately show ?thesis by simp
  qed
  from groupEdits_cases [of exts docs k ids] show ?thesis
  proof
    assume none: "groupEdits exts docs (k, ids) = []"
    have "k \<notin> fst ` set ?edits"
    proof
      assume "k \<in> fst ` set ?edits"
      then obtain j where "(k, j) \<in> set ?edits" by force
      from only [OF this] none show False by simp
    qed
    then have "?docs1 k = docs k" by (rule applyEdit_untouched)
    then have "groupEdits exts ?docs1 (k, ids) = groupEdits exts docs (k, ids)"
      by (rule groupEdits_same_doc)
    with none show ?thesis by simp
  next
    assume "\<exists>ext json. getExtension exts k = Some ext \<and> docs k = Some json
      \<and> length (appendEvents (ensuredEvents json) ids)
          > length (ensuredEvents json)
      \<and> groupEdits exts docs (k, ids)
          = [(k, json \<lparr> json_activationEvents := Some (sort (appendEvents
               (ensuredEvents json) ids)) \<rparr>)]"
    then obtain ext json where ext: "getExtension exts k = Some ext"
      and ed: "groupEdits exts docs (k, ids)
          = [(k, json \<lparr> json_activationEvents := Some (sort (appendEvents
               (ensuredEvents json) ids)) \<rparr>)]"
      by blast
    let ?j = "json \<lparr> json_activationEvents := Some (sort (appendEvents
               (ensuredEvents json) ids)) \<rparr>"
    from g ed have mem: "(k, ?j) \<in> set ?edits" by force
    moreover have "\<forall>j'. (k, j') \<in> set ?edits \<longrightarrow> j' = ?j"
      using only ed by auto
    ultimately have "?docs1 k = Some ?j" by (rule applyEdit_replaced)
    with ext show ?thesis by (simp add: groupEdits_def ensuredEvents_def appendEvents_rerun)
  qed
qed

lemma batch_rerun: "batchEdits rt exts (applyEdit (batchEdits rt exts docs) docs) = []"
proof (cases "filter isMissingEvent (detectRegistrationMismatches rt exts) = []")
  case True
  then show ?thesis by (simp add: batchEdits_def)
next
  case False
  let ?G = "extensionGroupsOf rt exts"
  have "groupEdits exts (applyEdit (concat (map (groupEdits exts docs) ?G)) docs) g = []"
    if "g \<in> set ?G" for g
  proof -
    obtain k ids where "g = (k, ids)" by (cases g)
    with that group_rerun [OF distinct_groups, of k ids rt exts exts docs] show ?thesis by simp
  qed
  with False show ?thesis by (simp add: batchEdits_def)
qed

lemma batch_edit_origin:
  assumes "e \<in> set (batchEdits rt exts docs)"
  shows "\<exists>ids json. (fst e, ids) \<in> set (extensionGroupsOf rt exts) \<and> docs (fst e) = Some json
    \<and> length (appendEvents (ensuredEvents json) ids) > length (ensuredEvents json)
    \<and> snd e = json \<lparr> json_activationEvents :=
                      Some (sort (appendEvents (ensuredEvents json) ids)) \<rparr>"
proof -
  obtain k j where e: "e = (k, j)" by (cases e)
  from assms e have "(k, j) \<in> set (concat (map (groupEdits exts docs) (extensionGroupsOf rt exts)))"
    by (simp add: batchEdits_def split: if_splits)
  from edit_origin [OF this] obtain ids where g: "(k, ids) \<in> set (extensionGroupsOf rt exts)"
    and ed: "groupEdits exts docs (k, ids) = [(k, j)]" by blast
  from groupEdits_cases [of exts docs k ids] ed
  obtain json where "docs k = Some json"
    "length (appendEvents (ensuredEvents json) ids) > length (ensuredEvents json)"
    "j = json \<lparr> json_activationEvents := Some (sort (appendEvents (ensuredEvents json) ids)) \<rparr>"
    by auto
  with g e show ?thesis by auto
qed

lemma applyEdit_nil: "applyEdit [] docs = docs"
  by (simp add: applyEdit_def)

lemma fixAll_rerun_documents:
  "documents (snd (fixAllMissingActivationEvents rt exts applyOk
      (snd (fixAllMissingActivationEvents rt exts True host))))
   = documents (snd (fixAllMissingActivationEvents rt exts True host))"
  by (simp add: fixAllMissingActivationEvents_def batch_rerun applyEdit_nil)

text \<open>C6: batch remediation is idempotent. In each group \<^verbatim>\<open>onCommand:<id>\<close> is appended
  only when it is not yet in the activation events, so the events after the loop are the
  events before it followed by new, pairwise different events; an edit of a component's
  manifest is produced only when the loop made the list longer; and a second run on the
  documents the first run has written produces no edit and leaves every document as it
  is.\<close>

theorem C6_batch_idempotent:
  "batchEdits rt exts (applyEdit (batchEdits rt exts docs) docs) = []
   \<and> documents (snd (fixAllMissingActivationEvents rt exts applyOk
        (snd (fixAllMissingActivationEvents rt exts True host))))
       = documents (snd (fixAllMissingActivationEvents rt exts True host))
   \<and> (\<exists>added. appendEvents events ids = events @ added \<and> distinct added
        \<and> set added \<inter> set events = {}
        \<and> set added = onCommandEvent ` set ids - set events)
   \<and> (\<forall>e \<in> set (batchEdits rt exts docs).
        \<exists>ids json. (fst e, ids) \<in> set (extensionGroupsOf rt exts) \<and> docs (fst e) = Some json
          \<and> length (appendEvents (ensuredEvents json) ids) > length (ensuredEvents json)
          \<and> snd e = json \<lparr> json_activationEvents :=
                            Some (sort (appendEvents (ensuredEvents json) ids)) \<rparr>)
   \<and> onCommandEvent cmdId = ''onCommand:'' @ cmdId"
proof -
  have "\<forall>e \<in> set (batchEdits rt exts docs).
        \<exists>ids json. (fst e, ids) \<in> set (extensionGroupsOf rt exts) \<and> docs (fst e) = Some json
          \<and> length (appendEvents (ensuredEvents json) ids) > length (ensuredEvents json)
          \<and> snd e = json \<lparr> json_activationEvents :=
                            Some (sort (appendEvents (ensuredEvents json) ids)) \<rparr>"
    using batch_edit_origin [of _ rt exts docs] by blast
  with batch_rerun [of rt exts docs] fixAll_rerun_documents [of rt exts applyOk host]
    appendEvents_added [of events ids] onCommandEvent_def [of cmdId]
  show ?thesis by blast
qed

theorem C6_batch_idempotent_witness:
  "batchEdits {}
     [\<lparr> ext_id = ''pub.alpha'', isActive = True, displayName = Some ''Alpha'', name = ''alpha'',
         commands = [''foo.bar''], keybindings = [], activationEvents = [] \<rparr>]
     (\<lambda>i. Some \<lparr> json_activationEvents = None, json_other = ''alpha'' \<rparr>)
     = [(''pub.alpha'',
         \<lparr> json_activationEvents = Some [''onCommand:foo.bar''], json_other = ''alpha'' \<rparr>)]
   \<and> batchEdits {}
     [\<lparr> ext_id = ''pub.alpha'', isActive = True, displayName = Some ''Alpha'', name = ''alpha'',
         commands = [''foo.bar''], keybindings = [], activationEvents = [] \<rparr>]
     (applyEdit
        [(''pub.alpha'',
          \<lparr> json_activationEvents = Some [''onCommand:foo.bar''], json_other = ''alpha'' \<rparr>)]
        (\<lambda>i. Some \<lparr> json_activationEvents = None, json_other = ''alpha'' \<rparr>))
     = []"
proof -
  let ?exts = "[\<lparr> ext_id = ''pub.alpha'', isActive = True, displayName = Some ''Alpha'',
      name = ''alpha'', commands = [''foo.bar''], keybindings = [], activationEvents = [] \<rparr>]"
  let ?docs = "\<lambda>i :: string. Some \<lparr> json_activationEvents = None, json_other = ''alpha'' \<rparr>"
  have 1: "batchEdits {} ?exts ?docs
     = [(''pub.alpha'',
         \<lparr> json_activationEvents = Some [''onCommand:foo.bar''], json_other = ''alpha'' \<rparr>)]"
    by code_simp
  note a = C6_batch_idempotent [of "{}" ?exts ?docs True
      "\<lparr> documents = ?docs, clipboard = [], shown = [] \<rparr>" "[]" "[]" "[]"]
  from a [THEN conjunct1] 1 show ?thesis by simp
qed

subsection \<open>Single-conflict remediation\<close>

text \<open>C7: the single-conflict remediation writes no file: for every conflict, every answer
  of the user and every host state, the manifest documents are unchanged; the function
  builds the text \<^verbatim>\<open>onCommand:<conflict id>\<close>, writes it to the clipboard when the user
  picks \<^verbatim>\<open>Copy to Clipboard\<close>, leaves the clipboard alone otherwise, and returns true.\<close>

theorem C7_single_fix_writes_no_file:
  "documents (snd (fixMissingActivationEvents conflict selection host)) = documents host
   \<and> fst (fixMissingActivationEvents conflict selection host) = True
   \<and> (selection = Some ''Copy to Clipboard'' \<longrightarrow>
        clipboard (snd (fixMissingActivationEvents conflict selection host))
          = ''onCommand:'' @ conflict_id conflict)
   \<and> (selection \<noteq> Some ''Copy to Clipboard'' \<longrightarrow>
        clipboard (snd (fixMissingActivationEvents conflict selection host)) = clipboard host)"
  by (simp add: fixMissingActivationEvents_def Let_def onCommandEvent_def)

theorem C7_single_fix_writes_no_file_witness:
  "clipboard (snd (fixMissingActivationEvents
      (missingEventConflict
         \<lparr> ext_id = ''pub.alpha'', isActive = True, displayName = None, name = ''alpha'',
           commands = [''foo.bar''], keybindings = [], activationEvents = [] \<rparr> ''foo.bar'')
      (Some ''Copy to Clipboard'')
      \<lparr> documents = (\<lambda>i. None), clipboard = ''old'', shown = [] \<rparr>)) = ''onCommand:foo.bar''
   \<and> clipboard (snd (fixMissingActivationEvents
      (missingEventConflict
         \<lparr> ext_id = ''pub.alpha'', isActive = True, displayName = None, name = ''alpha'',
           commands = [''foo.bar''], keybindings = [], activationEvents = [] \<rparr> ''foo.bar'')
      None
      \<lparr> documents = (\<lambda>i. None), clipboard = ''old'', shown = [] \<rparr>)) = ''old''"
  using C7_single_fix_writes_no_file [of
      "missingEventConflict
         \<lparr> ext_id = ''pub.alpha'', isActive = True, displayName = None, name = ''alpha'',
           commands = [''foo.bar''], keybindings = [], activationEvents = [] \<rparr> ''foo.bar''"
      "Some ''Copy to Clipboard''" "\<lparr> documents = (\<lambda>i. None), clipboard = ''old'', shown = [] \<rparr>"]
    C7_single_fix_writes_no_file [of
      "missingEventConflict
         \<lparr> ext_id = ''pub.alpha'', isActive = True, displayName = None, name = ''alpha'',
           commands = [''foo.bar''], keybindings = [], activationEvents = [] \<rparr> ''foo.bar''"
      None "\<lparr> documents = (\<lambda>i. None), clipboard = ''old'', shown = [] \<rparr>"]
  by (simp add: missingEventConflict_def)

subsection \<open>Tail read\<close>

lemma codeUnits_length: "length (codeUnits cp) \<le> 2"
  by (simp add: codeUnits_def)

lemma decodeBytes_length:
  "length (decodeBytes cp needed lo hi bs) \<le> length bs + (if needed = 0 then 0 else 1)"
proof (induction cp needed lo hi bs rule: decodeBytes.induct)
  case (1 cp needed lo hi)
  then show ?case by simp
next
  case (2 cp needed lo hi b bs)
  have cu: "length (codeUnits (cp * 0x40 + b mod 0x40)) \<le> 2" by (rule codeUnits_length)
  show ?case
  proof (cases "needed = 0")
    case True
    consider (ascii) "b < 0x80"
      | (two) "\<not> b < 0x80" "0xC2 \<le> b \<and> b \<le> 0xDF"
      | (three) "\<not> b < 0x80" "\<not> (0xC2 \<le> b \<and> b \<le> 0xDF)" "0xE0 \<le> b \<and> b \<le> 0xEF"
      | (four) "\<not> b < 0x80" "\<not> (0xC2 \<le> b \<and> b \<le> 0xDF)" "\<not> (0xE0 \<le> b \<and> b \<le> 0xEF)"
          "0xF0 \<le> b \<and> b \<le> 0xF4"
      | (bad) "\<not> b < 0x80" "\<not> (0xC2 \<le> b \<and> b \<le> 0xDF)" "\<not> (0xE0 \<le> b \<and> b \<le> 0xEF)"
          "\<not> (0xF0 \<le> b \<and> b \<le> 0xF4)"
      by blast
    then show ?thesis
    proof cases
      case ascii
      with True "2.IH"(1) show ?thesis by simp
    next
      case two
      with True "2.IH"(2) show ?thesis by simp
    next
      case three
      with True "2.IH"(3) show ?thesis by simp
    next
      case four
      with True "2.IH"(4) show ?thesis by simp
    next
      case bad
      then have "b \<noteq> 0xE0" "b \<noteq> 0xED" "b \<noteq> 0xF0" "b \<noteq> 0xF4" by arith+
      with bad True "2.IH"(5) show ?thesis by simp blast
    qed
  next
    case False
    show ?thesis
    proof (cases "b < lo \<or> hi < b")
      case True
      with False "2.IH"(6) show ?thesis by simp
    next
      case inrange: False
      show ?thesis
      proof (cases "needed = 1")
        case True
        with False inrange "2.IH"(7) cu show ?thesis by simp
      next
        case more: False
        with False inrange "2.IH"(8) show ?thesis by simp
      qed
    qed
  qed
qed


lemma decodeBytes_ascii:
  "\<forall>b \<in> set bs. b < 0x80 \<Longrightarrow> decodeBytes cp 0 lo hi bs = bs"
  by (induction bs arbitrary: cp lo hi) simp_all

lemma utf8Decode_length: "length (utf8Decode bytes) \<le> length bytes"
  using decodeBytes_length [of 0 0 "0x80" "0xBF" "map of_char bytes"]
  by (simp add: utf8Decode_def)

lemma utf8Decode_ascii:
  "\<forall>c \<in> set bytes. (of_char c :: nat) < 0x80 \<Longrightarrow> utf8Decode bytes = unitsOf bytes"
  by (simp add: utf8Decode_def unitsOf_def decodeBytes_ascii)

lemma unitSize_le: "unitSize u \<le> 3"
  by (simp add: unitSize_def)

lemma utf8Size_le: "utf8Size us \<le> 3 * length us"
  unfolding utf8Size_def
proof (induction us)
  case Nil
  then show ?case by simp
next
  case (Cons u us)
  with unitSize_le [of u] show ?case by simp
qed

lemma utf8Size_append: "utf8Size (us @ vs) = utf8Size us + utf8Size vs"
  by (simp add: utf8Size_def)

lemma utf8Size_ascii: "\<forall>u \<in> set us. u < 0x80 \<Longrightarrow> utf8Size us = length us"
  unfolding utf8Size_def by (induction us) (simp_all add: unitSize_def)

lemma fdRead_tail:
  "MAX_BYTES < length bytes \<Longrightarrow>
     fdRead bytes MAX_BYTES (length bytes - MAX_BYTES) = drop (length bytes - MAX_BYTES) bytes"
  by (simp add: fdRead_def Let_def)

lemma marker_units: "length (unitsOf truncationMarker) = 18" "utf8Size (unitsOf truncationMarker) = 18"
  by (simp_all add: unitsOf_def truncationMarker_def newline_def utf8Size_def unitSize_def)

lemma readFile_length: "length (readFile file) \<le> 51200 + length truncationMarker"
proof (cases "file")
  case None
  then show ?thesis by (simp add: readFile_def)
next
  case (Some bytes)
  show ?thesis
  proof (cases "length bytes \<le> MAX_BYTES")
    case True
    with Some utf8Decode_length [of bytes] show ?thesis
      by (simp add: readFile_def MAX_BYTES_def)
  next
    case False
    have "length (fdRead bytes MAX_BYTES (length bytes - MAX_BYTES)) = MAX_BYTES"
      by (simp add: fdRead_def Let_def)
    with utf8Decode_length [of "fdRead bytes MAX_BYTES (length bytes - MAX_BYTES)"]
    have "length (utf8Decode (fdRead bytes MAX_BYTES (length bytes - MAX_BYTES))) \<le> 51200"
      by (simp add: MAX_BYTES_def)
    with Some False show ?thesis by (simp add: readFile_def unitsOf_def)
  qed
qed

lemma readFile_size: "utf8Size (readFile file) \<le> length truncationMarker + 3 * 51200"
proof (cases "file")
  case None
  then show ?thesis by (simp add: readFile_def utf8Size_def)
next
  case (Some bytes)
  show ?thesis
  proof (cases "length bytes \<le> MAX_BYTES")
    case True
    with utf8Decode_length [of bytes] have "length (utf8Decode bytes) \<le> 51200"
      by (simp add: MAX_BYTES_def)
    with utf8Size_le [of "utf8Decode bytes"] have "utf8Size (utf8Decode bytes) \<le> 3 * 51200"
      by simp
    with Some True show ?thesis by (simp add: readFile_def)
  next
    case False
    let ?w = "fdRead bytes MAX_BYTES (length bytes - MAX_BYTES)"
    have "length ?w = MAX_BYTES" by (simp add: fdRead_def Let_def)
    with utf8Decode_length [of ?w] have "length (utf8Decode ?w) \<le> 51200"
      by (simp add: MAX_BYTES_def)
    with utf8Size_le [of "utf8Decode ?w"] have "utf8Size (utf8Decode ?w) \<le> 3 * 51200" by simp
    with Some False marker_units(1,2) show ?thesis
      by (simp add: readFile_def utf8Size_append unitsOf_def)
  qed
qed

text \<open>A file of 51202 bytes in valid UTF-8 whose last 51200 bytes begin inside a
  character: the letter x, the three bytes of the euro sign and 51198 bytes of ASCII.\<close>

lemma cut_window:
  assumes ascii: "\<forall>c \<in> set rest. (of_char c :: nat) < 0x80" and len: "length rest = 51198"
  shows "utf8Decode (CHR ''x'' # CHR 0xE2 # CHR 0x82 # CHR 0xAC # rest) = [120, 8364] @ unitsOf rest"
    and "readFile (Some (CHR ''x'' # CHR 0xE2 # CHR 0x82 # CHR 0xAC # rest))
      = unitsOf truncationMarker @ [65533, 65533] @ unitsOf rest"
    and "utf8Size (readFile (Some (CHR ''x'' # CHR 0xE2 # CHR 0x82 # CHR 0xAC # rest))) = 51222"
proof -
  let ?f = "CHR ''x'' # CHR 0xE2 # CHR 0x82 # CHR 0xAC # rest"
  from ascii have r: "decodeBytes 0 0 0x80 0xBF (map of_char rest) = unitsOf rest"
    by (simp add: decodeBytes_ascii unitsOf_def)
  then show 1: "utf8Decode ?f = [120, 8364] @ unitsOf rest"
    by (simp add: utf8Decode_def codeUnits_def)
  from len have big: "MAX_BYTES < length ?f" and d: "drop (length ?f - MAX_BYTES) ?f
      = CHR 0x82 # CHR 0xAC # rest"
    by (simp_all add: MAX_BYTES_def)
  from r have w: "utf8Decode (CHR 0x82 # CHR 0xAC # rest) = [65533, 65533] @ unitsOf rest"
    by (simp add: utf8Decode_def)
  from big have "readFile (Some ?f)
      = unitsOf truncationMarker @ utf8Decode (drop (length ?f - MAX_BYTES) ?f)"
    using fdRead_tail [OF big] by (simp only: readFile_def Let_def option.case) simp
  with d w show 2: "readFile (Some ?f) = unitsOf truncationMarker @ [65533, 65533] @ unitsOf rest"
    by simp
  from ascii have "utf8Size (unitsOf rest) = length rest"
    by (simp add: utf8Size_ascii unitsOf_def)
  with len 2 marker_units(2) show "utf8Size (readFile (Some ?f)) = 51222"
    by (simp add: utf8Size_append utf8Size_def unitSize_def)
qed

text \<open>C8, as stated, has the tail read return exactly the last 50 KiB of a larger file
  behind the marker, in no more than 50 KiB plus the length of the marker. The code decodes
  the window as UTF-8: for the file below, whose text is \<^verbatim>\<open>x\<close>, the euro sign and 51198
  times \<^verbatim>\<open>x\<close>, the two bytes left of the euro sign come back as two U+FFFD, which the
  file does not contain, and the returned text takes 51222 bytes in UTF-8, more than
  51200 plus the 18 of the marker.\<close>

theorem C8_cut_character_counterexample:
  "utf8Decode (CHR ''x'' # CHR 0xE2 # CHR 0x82 # CHR 0xAC # replicate 51198 (CHR ''x''))
     = [120, 8364] @ unitsOf (replicate 51198 (CHR ''x''))
   \<and> readFile (Some (CHR ''x'' # CHR 0xE2 # CHR 0x82 # CHR 0xAC # replicate 51198 (CHR ''x'')))
     = unitsOf truncationMarker @ [65533, 65533] @ unitsOf (replicate 51198 (CHR ''x''))
   \<and> utf8Size (readFile
       (Some (CHR ''x'' # CHR 0xE2 # CHR 0x82 # CHR 0xAC # replicate 51198 (CHR ''x''))))
     = 51222"
proof -
  have a: "\<forall>c \<in> set (replicate 51198 (CHR ''x'')). (of_char c :: nat) < 0x80" by simp
  have l: "length (replicate 51198 (CHR ''x'')) = 51198" by simp
  from cut_window [OF a l] show ?thesis by blast
qed

text \<open>C8, amended: for every log file, the tail read returns the UTF-8 decoding of the
  whole file when the file has at most 50 KiB, and otherwise the truncation marker
  followed by the UTF-8 decoding of exactly the last 50 KiB of the file, in which the
  bytes of a character cut by the start of the window decode to U+FFFD like any invalid
  byte. Whatever the size of the file, the returned text has at most 50 KiB plus the
  length of the marker in UTF-16 code units, and at most three times 50 KiB plus the length
  of the marker in UTF-8 bytes. For a file of ASCII bytes the decoding is the bytes.\<close>

theorem C8_tail_read:
  "MAX_BYTES = 51200
   \<and> (length bytes \<le> 51200 \<longrightarrow> readFile (Some bytes) = utf8Decode bytes)
   \<and> (length bytes > 51200 \<longrightarrow>
        readFile (Some bytes)
          = unitsOf truncationMarker @ utf8Decode (drop (length bytes - 51200) bytes)
        \<and> length (drop (length bytes - 51200) bytes) = 51200)
   \<and> length (readFile file) \<le> 51200 + length truncationMarker
   \<and> utf8Size (readFile file) \<le> length truncationMarker + 3 * 51200
   \<and> ((\<forall>c \<in> set bytes. (of_char c :: nat) < 0x80) \<longrightarrow> utf8Decode bytes = unitsOf bytes)"
proof -
  have m: "MAX_BYTES = 51200" by (simp add: MAX_BYTES_def)
  have small: "readFile (Some bytes) = utf8Decode bytes" if "length bytes \<le> 51200"
    using that by (simp add: readFile_def m)
  have large: "readFile (Some bytes)
      = unitsOf truncationMarker @ utf8Decode (drop (length bytes - 51200) bytes)"
    if "length bytes > 51200"
    using that fdRead_tail [of bytes] by (simp add: readFile_def m)
  have window: "length (drop (length bytes - 51200) bytes) = 51200" if "length bytes > 51200"
    using that by simp
  have ascii: "utf8Decode bytes = unitsOf bytes" if "\<forall>c \<in> set bytes. (of_char c :: nat) < 0x80"
    using that by (rule utf8Decode_ascii)
  from m small large window ascii readFile_length [of "file"] readFile_size [of "file"]
  show ?thesis by blast
qed

theorem C8_tail_read_witness:
  "readFile (Some ''short log'') = unitsOf ''short log''
   \<and> readFile (Some (replicate 10485760 (CHR ''x'')))
       = unitsOf truncationMarker @ unitsOf (replicate 51200 (CHR ''x''))
   \<and> length (readFile (Some (replicate 10485760 (CHR ''x'')))) = 51218"
proof -
  note a = C8_tail_read [of "''short log''" None]
  note b = C8_tail_read [of "replicate 10485760 (CHR ''x'')" None]
  note c = C8_tail_read [of "replicate 51200 (CHR ''x'')" None]
  from a [THEN conjunct2, THEN conjunct1]
    a [THEN conjunct2, THEN conjunct2, THEN conjunct2, THEN conjunct2, THEN conjunct2]
  have 1: "readFile (Some ''short log'') = unitsOf ''short log''" by simp
  from c [THEN conjunct2, THEN conjunct2, THEN conjunct2, THEN conjunct2, THEN conjunct2]
  have d: "utf8Decode (replicate 51200 (CHR ''x'')) = unitsOf (replicate 51200 (CHR ''x''))"
    by simp
  from b [THEN conjunct2, THEN conjunct2, THEN conjunct1] d
  have 2: "readFile (Some (replicate 10485760 (CHR ''x'')))
       = unitsOf truncationMarker @ unitsOf (replicate 51200 (CHR ''x''))"
    by simp
  then have 3: "length (readFile (Some (replicate 10485760 (CHR ''x'')))) = 51218"
    by (simp add: unitsOf_def truncationMarker_def)
  from 1 2 3 show ?thesis by blast
qed

subsection \<open>Log parsing\<close>

lemma splitAtFirst_Some: "splitAtFirst sep s = Some (a, b) \<Longrightarrow> s = a @ sep @ b"
proof (induction s arbitrary: a)
  case Nil
  then show ?case by simp
next
  case (Cons c cs)
  show ?case
  proof (cases "prefix sep (c # cs)")
    case True
    then obtain z where z: "c # cs = sep @ z" by (auto simp: prefix_def)
    have "drop (length sep) (sep @ z) = z" by simp
    with z have d: "drop (length sep) (c # cs) = z" by simp
    from True Cons.prems have "a = []" "b = drop (length sep) (c # cs)" by simp_all
    with d z show ?thesis by simp
  next
    case False
    with Cons.prems obtain a' where "splitAtFirst sep cs = Some (a', b)" "a = c # a'"
      by (auto split: option.splits)
    with Cons.IH [of a'] show ?thesis by simp
  qed
qed

lemma drop_front: "n \<le> length xs \<Longrightarrow> drop n (xs @ ys) = drop n xs @ ys"
  by simp

lemma splitAtFirst_finds:
  "sep \<noteq> [] \<Longrightarrow> \<exists>a' x. splitAtFirst sep (a @ sep @ b) = Some (a', x @ b)"
proof (induction a)
  case Nil
  then obtain c cs where "sep @ b = c # cs" by (cases sep) auto
  moreover have "prefix sep (sep @ b)" by simp
  ultimately have "splitAtFirst sep (sep @ b) = Some ([], [] @ b)"
    by (metis append_Nil append_eq_conv_conj splitAtFirst.simps(2))
  then show ?case by (metis append_Nil)
next
  case (Cons c a)
  show ?case
  proof (cases "prefix sep (c # a @ sep @ b)")
    case True
    have "length sep \<le> length ((c # a) @ sep)" by simp
    then have "drop (length sep) (((c # a) @ sep) @ b) = drop (length sep) ((c # a) @ sep) @ b"
      by (rule drop_front)
    with True have "splitAtFirst sep ((c # a) @ sep @ b)
        = Some ([], drop (length sep) ((c # a) @ sep) @ b)"
      by simp
    then show ?thesis by blast
  next
    case False
    from Cons obtain a' x where "splitAtFirst sep (a @ sep @ b) = Some (a', x @ b)" by blast
    with False have "splitAtFirst sep ((c # a) @ sep @ b) = Some (c # a', x @ b)" by simp
    then show ?thesis by blast
  qed
qed

text \<open>The model of the regular expression accepts exactly the lines of the shape
  \<^verbatim>\<open>[ts] [channel] [level] message\<close> without a line terminator, and its groups make up
  the line.\<close>

lemma matchLine_sound:
  assumes "matchLine line = Some (ts, channel, levelToken, msg)"
  shows "line = ''['' @ ts @ ''] ['' @ channel @ ''] ['' @ levelToken @ ''] '' @ msg
    \<and> (\<forall>c \<in> set line. \<not> isLineTerminator c)"
proof -
  from assms have nt: "\<forall>c \<in> set line. \<not> isLineTerminator c"
    by (auto simp: matchLine_def split: if_splits)
  with assms obtain r0 where l: "line = CHR ''['' # r0"
    by (cases line) (auto simp: matchLine_def split: if_splits)
  with assms nt obtain r1 where 1: "splitAtFirst ''] ['' r0 = Some (ts, r1)"
    by (simp add: matchLine_def split: option.splits prod.splits)
  with assms nt l obtain r2 where 2: "splitAtFirst ''] ['' r1 = Some (channel, r2)"
    by (simp add: matchLine_def split: option.splits prod.splits)
  with assms nt l 1 have 3: "splitAtFirst ''] '' r2 = Some (levelToken, msg)"
    by (simp add: matchLine_def split: option.splits prod.splits)
  from splitAtFirst_Some [OF 1] splitAtFirst_Some [OF 2] splitAtFirst_Some [OF 3] l
  have "line = ''['' @ ts @ ''] ['' @ channel @ ''] ['' @ levelToken @ ''] '' @ msg" by simp
  with nt show ?thesis by blast
qed

lemma matchLine_complete:
  assumes "\<forall>c \<in> set line. \<not> isLineTerminator c"
    and "line = ''['' @ ts @ ''] ['' @ channel @ ''] ['' @ levelToken @ ''] '' @ msg"
  shows "matchLine line \<noteq> None"
proof -
  define R2 where "R2 = levelToken @ ''] '' @ msg"
  define R1 where "R1 = channel @ ''] ['' @ R2"
  define R0 where "R0 = ts @ ''] ['' @ R1"
  have ne: "''] ['' \<noteq> []" "''] '' \<noteq> []" by simp_all
  from splitAtFirst_finds [OF ne(1), of ts R1]
  obtain a1 x1 where 1: "splitAtFirst ''] ['' R0 = Some (a1, x1 @ R1)"
    unfolding R0_def by blast
  have e1: "x1 @ R1 = (x1 @ channel) @ ''] ['' @ R2" by (simp add: R1_def)
  from splitAtFirst_finds [OF ne(1), of "x1 @ channel" R2]
  obtain a2 x2 where "splitAtFirst ''] ['' ((x1 @ channel) @ ''] ['' @ R2) = Some (a2, x2 @ R2)"
    by blast
  then have 2: "splitAtFirst ''] ['' (x1 @ R1) = Some (a2, x2 @ R2)" by (simp only: e1)
  have e2: "x2 @ R2 = (x2 @ levelToken) @ ''] '' @ msg" by (simp add: R2_def)
  from splitAtFirst_finds [OF ne(2), of "x2 @ levelToken" msg]
  obtain a3 x3 where "splitAtFirst ''] '' ((x2 @ levelToken) @ ''] '' @ msg) = Some (a3, x3 @ msg)"
    by blast
  then have 3: "splitAtFirst ''] '' (x2 @ R2) = Some (a3, x3 @ msg)" by (simp only: e2)
  from assms(2) have l: "line = CHR ''['' # R0" by (simp add: R0_def R1_def R2_def)
  from assms(1) have "\<not> (\<exists>c \<in> set line. isLineTerminator c)" by blast
  then have "matchLine line = Some (a1, a2, a3, x3 @ msg)"
    by (simp add: matchLine_def l 1 2 3)
  then show ?thesis by simp
qed

lemma splitLines_nonempty: "splitLines s \<noteq> []"
  by (induction s) (auto split: list.splits)

lemma splitLines_single: "newline \<notin> set l \<Longrightarrow> splitLines l = [l]"
  by (induction l) auto

lemma splitLines_snoc:
  "newline \<notin> set line \<Longrightarrow> splitLines (content @ newline # line) = splitLines content @ [line]"
proof (induction content)
  case Nil
  then show ?case by (simp add: splitLines_single)
next
  case (Cons c content)
  show ?case
  proof (cases "c = newline")
    case True
    with Cons show ?thesis by simp
  next
    case False
    obtain l ls where "splitLines content = l # ls"
      using splitLines_nonempty [of content] by (cases "splitLines content") auto
    with False Cons show ?thesis by simp
  qed
qed

lemma parse_snoc:
  "newline \<notin> set line \<Longrightarrow>
     parseLogContent (content @ newline # line) src
       = parseStep src (parseLogContent content src) line"
  by (simp add: parseLogContent_def splitLines_snoc)

lemma parse_first: "newline \<notin> set line \<Longrightarrow> parseLogContent line src = parseStep src [] line"
  by (simp add: parseLogContent_def splitLines_single)

lemma update_last: "xs \<noteq> [] \<Longrightarrow> xs[length xs - Suc 0 := x] = butlast xs @ [x]"
  by (induction xs rule: rev_induct) simp_all

lemma dropWhile_all: "(\<forall>x \<in> set (dropWhile P s). P x) \<longleftrightarrow> (\<forall>x \<in> set s. P x)"
  by (induction s) auto

lemma trim_blank: "trim s = [] \<longleftrightarrow> (\<forall>c \<in> set s. isWhitespace c)"
  by (simp add: trim_def dropWhile_eq_Nil_conv dropWhile_all)

lemma parse_count_from:
  "length (foldl (parseStep src) acc ls)
     = length acc + length (filter (\<lambda>l. matchLine l \<noteq> None) ls)"
proof (induction ls arbitrary: acc)
  case Nil
  then show ?case by simp
next
  case (Cons l ls)
  have "length (parseStep src acc l) = length acc + (if matchLine l \<noteq> None then 1 else 0)"
    by (auto simp: parseStep_def split: option.splits)
  with Cons [of "parseStep src acc l"] show ?case by simp
qed

lemma example_parse:
  "parseLogContent
     (''[2024-01-01T00:00:00.000] [exthost] [error] Something failed'' @ [newline]
      @ ''    at foo.js:10'' @ [newline]
      @ ''[2024-01-01T00:00:00.100] [exthost] [info] Recovered'') src
   = [\<lparr> timestamp = ''2024-01-01T00:00:00.000'', level = LevelError,
        message = ''Something failed'' @ [newline] @ ''    at foo.js:10'', source = src \<rparr>,
      \<lparr> timestamp = ''2024-01-01T00:00:00.100'', level = Info,
        message = ''Recovered'', source = src \<rparr>]"
  by code_simp

text \<open>C9, as stated, has every non-matching, non-empty line appended to the previous
  entry. The parser tests \<^verbatim>\<open>line.trim()\<close>: a line of three spaces is not empty and does
  not match, and it is dropped although an entry precedes it.\<close>

theorem C9_blank_line_counterexample:
  "matchLine ''   '' = None \<and> ''   '' \<noteq> []
   \<and> parseLogContent ''[t] [app] [info] started'' ''pub.alpha''
       = [\<lparr> timestamp = ''t'', level = Info, message = ''started'', source = ''app'' \<rparr>]
   \<and> parseLogContent (''[t] [app] [info] started'' @ [newline] @ ''   '') ''pub.alpha''
       = [\<lparr> timestamp = ''t'', level = Info, message = ''started'', source = ''app'' \<rparr>]"
  by code_simp

text \<open>C9, amended: a line that matches the pattern starts a new entry; a line that does
  not match and has a character that is not whitespace is appended, after a line feed,
  to the message of the previous entry; a line that does not match is dropped when it
  consists of whitespace only or when no entry precedes it. The number of entries is the
  number of matching lines, and the two-header input gives 2 entries, the first with the
  message \<^verbatim>\<open>Something failed\<close>, a line feed and \<^verbatim>\<open>    at foo.js:10\<close>.\<close>

theorem C9_parse_lines:
  assumes "newline \<notin> set line"
  shows "(\<forall>ts channel levelToken msg. matchLine line = Some (ts, channel, levelToken, msg) \<longrightarrow>
            parseLogContent (content @ newline # line) src
              = parseLogContent content src
                @ [\<lparr> timestamp = ts, level = normalizeLevel levelToken, message = msg,
                     source = (if channel = ''exthost'' then src else channel) \<rparr>])
       \<and> (matchLine line = None \<longrightarrow> (\<exists>c \<in> set line. \<not> isWhitespace c) \<longrightarrow>
            parseLogContent content src \<noteq> [] \<longrightarrow>
            parseLogContent (content @ newline # line) src
              = butlast (parseLogContent content src)
                @ [(last (parseLogContent content src))
                     \<lparr> message := message (last (parseLogContent content src))
                                     @ newline # line \<rparr>])
       \<and> (matchLine line = None \<longrightarrow>
            (\<forall>c \<in> set line. isWhitespace c) \<or> parseLogContent content src = [] \<longrightarrow>
            parseLogContent (content @ newline # line) src = parseLogContent content src)
       \<and> (matchLine line = None \<longrightarrow> parseLogContent line src = [])
       \<and> length (parseLogContent content src)
           = length (filter (\<lambda>l. matchLine l \<noteq> None) (splitLines content))
       \<and> map message (parseLogContent
           (''[2024-01-01T00:00:00.000] [exthost] [error] Something failed'' @ [newline]
            @ ''    at foo.js:10'' @ [newline]
            @ ''[2024-01-01T00:00:00.100] [exthost] [info] Recovered'') src)
           = [''Something failed'' @ [newline] @ ''    at foo.js:10'', ''Recovered'']"
proof (intro conjI allI impI)
  fix ts channel levelToken msg
  assume "matchLine line = Some (ts, channel, levelToken, msg)"
  then show "parseLogContent (content @ newline # line) src
      = parseLogContent content src
        @ [\<lparr> timestamp = ts, level = normalizeLevel levelToken, message = msg,
             source = (if channel = ''exthost'' then src else channel) \<rparr>]"
    by (simp add: parse_snoc [OF assms] parseStep_def)
next
  assume "matchLine line = None" "\<exists>c \<in> set line. \<not> isWhitespace c"
    "parseLogContent content src \<noteq> []"
  then show "parseLogContent (content @ newline # line) src
      = butlast (parseLogContent content src)
        @ [(last (parseLogContent content src))
             \<lparr> message := message (last (parseLogContent content src)) @ newline # line \<rparr>]"
    by (simp add: parse_snoc [OF assms] parseStep_def trim_blank update_last last_conv_nth)
next
  assume "matchLine line = None"
    "(\<forall>c \<in> set line. isWhitespace c) \<or> parseLogContent content src = []"
  then show "parseLogContent (content @ newline # line) src = parseLogContent content src"
    by (auto simp: parse_snoc [OF assms] parseStep_def trim_blank)
next
  assume "matchLine line = None"
  then show "parseLogContent line src = []"
    by (simp add: parse_first [OF assms] parseStep_def)
next
  show "length (parseLogContent content src)
      = length (filter (\<lambda>l. matchLine l \<noteq> None) (splitLines content))"
    by (simp add: parseLogContent_def parse_count_from)
next
  show "map message (parseLogContent
           (''[2024-01-01T00:00:00.000] [exthost] [error] Something failed'' @ [newline]
            @ ''    at foo.js:10'' @ [newline]
            @ ''[2024-01-01T00:00:00.100] [exthost] [info] Recovered'') src)
           = [''Something failed'' @ [newline] @ ''    at foo.js:10'', ''Recovered'']"
    by (simp only: example_parse) simp
qed

theorem C9_parse_lines_witness:
  "parseLogContent (''[t] [exthost] [error] Something failed'' @ newline # ''    at foo.js:10'')
       ''pub.alpha''
     = [\<lparr> timestamp = ''t'', level = LevelError,
          message = ''Something failed'' @ newline # ''    at foo.js:10'', source = ''pub.alpha'' \<rparr>]
   \<and> parseLogContent (''[t] [exthost] [error] Something failed'' @ newline # ''[u] [main] [info] ok'')
       ''pub.alpha''
     = [\<lparr> timestamp = ''t'', level = LevelError, message = ''Something failed'',
          source = ''pub.alpha'' \<rparr>,
        \<lparr> timestamp = ''u'', level = Info, message = ''ok'', source = ''main'' \<rparr>]
   \<and> parseLogContent (''[t] [exthost] [error] Something failed'' @ newline # ''   '') ''pub.alpha''
     = [\<lparr> timestamp = ''t'', level = LevelError, message = ''Something failed'',
          source = ''pub.alpha'' \<rparr>]
   \<and> parseLogContent ''    at foo.js:10'' ''pub.alpha'' = []"
proof -
  let ?h = "''[t] [exthost] [error] Something failed''"
  have h: "parseLogContent ?h ''pub.alpha''
      = [\<lparr> timestamp = ''t'', level = LevelError, message = ''Something failed'',
           source = ''pub.alpha'' \<rparr>]"
    by code_simp
  have m1: "matchLine ''    at foo.js:10'' = None" by code_simp
  have m2: "matchLine ''[u] [main] [info] ok'' = Some (''u'', ''main'', ''info'', ''ok'')"
    by code_simp
  have m3: "matchLine ''   '' = None" by code_simp
  have lv: "normalizeLevel ''info'' = Info" by code_simp
  have n1: "newline \<notin> set ''    at foo.js:10''" and n2: "newline \<notin> set ''[u] [main] [info] ok''"
    and n3: "newline \<notin> set ''   ''"
    by (simp_all add: newline_def)
  have w1: "\<exists>c \<in> set ''    at foo.js:10''. \<not> isWhitespace c" by (simp add: isWhitespace_def)
  have w3: "\<forall>c \<in> set ''   ''. isWhitespace c" by (simp add: isWhitespace_def)
  note a = C9_parse_lines [OF n1, of ?h "''pub.alpha''"]
  note b = C9_parse_lines [OF n2, of ?h "''pub.alpha''"]
  note c = C9_parse_lines [OF n3, of ?h "''pub.alpha''"]
  from a [THEN conjunct2, THEN conjunct1] m1 w1 h
  have 1: "parseLogContent (?h @ newline # ''    at foo.js:10'') ''pub.alpha''
     = [\<lparr> timestamp = ''t'', level = LevelError,
          message = ''Something failed'' @ newline # ''    at foo.js:10'', source = ''pub.alpha'' \<rparr>]"
    by simp
  from a [THEN conjunct2, THEN conjunct2, THEN conjunct2, THEN conjunct1] m1
  have 4: "parseLogContent ''    at foo.js:10'' ''pub.alpha'' = []"
    by simp
  from b [THEN conjunct1] m2 h lv
  have 2: "parseLogContent (?h @ newline # ''[u] [main] [info] ok'') ''pub.alpha''
     = [\<lparr> timestamp = ''t'', level = LevelError, message = ''Something failed'',
          source = ''pub.alpha'' \<rparr>,
        \<lparr> timestamp = ''u'', level = Info, message = ''ok'', source = ''main'' \<rparr>]"
    by simp
  from c [THEN conjunct2, THEN conjunct2, THEN conjunct1] m3 w3 h
  have 3: "parseLogContent (?h @ newline # ''   '') ''pub.alpha''
     = [\<lparr> timestamp = ''t'', level = LevelError, message = ''Something failed'',
          source = ''pub.alpha'' \<rparr>]"
    by simp
  from 1 2 3 4 show ?thesis by blast
qed

subsection \<open>The source of a log entry\<close>









end
